theory Spec2Isabelle
  imports Main "HOL-Library.Multiset"
begin

section \<open>Positions: \<open>size_t\<close> with wrap-around\<close>

text \<open>
  Positions are \<open>size_t\<close> values, modelled as natural numbers below \<open>2 ^ 64\<close> with the
  wrap-around of unsigned arithmetic written out: a sum that reaches \<open>2 ^ 64\<close> loses
  \<open>2 ^ 64\<close>, a difference that would go below zero gains it. \<open>(size_t)-1\<close> is the not-found
  sentinel of every search method and the "unknown" value of \<open>_last_modified\<close>.
\<close>

definition SIZE_MAX :: nat where
  "SIZE_MAX = 18446744073709551615"

definition sz_add :: "nat \<Rightarrow> nat \<Rightarrow> nat" where
  "sz_add a b =
     (if a + b < 18446744073709551616 then a + b else a + b - 18446744073709551616)"

definition sz_sub :: "nat \<Rightarrow> nat \<Rightarrow> nat" where
  "sz_sub a b = (if b \<le> a then a - b else a + 18446744073709551616 - b)"

section \<open>The underlying \<open>std::vector\<close>\<close>

text \<open>
  A \<open>std::vector\<close> holds at most \<open>max_size()\<close> elements, which on a 64-bit target is
  at most \<open>PTRDIFF_MAX\<close>. The unchecked \<open>_storage[i]\<close> is defined for positions below
  \<open>size()\<close> only; everywhere else the read has no defined result, which is \<open>None\<close>.
\<close>

definition max_size :: nat where
  "max_size = 9223372036854775807"

definition elem :: "'a list \<Rightarrow> nat \<Rightarrow> 'a option" where
  "elem xs i = (if i < length xs \<and> length xs \<le> max_size then Some (xs ! i) else None)"

text \<open>\<open>_storage.erase(_storage.begin() + i)\<close>\<close>

definition erase_at :: "'a list \<Rightarrow> nat \<Rightarrow> 'a list option" where
  "erase_at xs i = (if i < length xs then Some (take i xs @ drop (Suc i) xs) else None)"

text \<open>\<open>_storage.insert(_storage.begin() + i, v)\<close>\<close>

definition insert_at :: "'a list \<Rightarrow> nat \<Rightarrow> 'a \<Rightarrow> 'a list option" where
  "insert_at xs i v = (if i \<le> length xs then Some (take i xs @ v # drop i xs) else None)"

text \<open>\<open>_storage[i] = v\<close>\<close>

definition assign_at :: "'a list \<Rightarrow> nat \<Rightarrow> 'a \<Rightarrow> 'a list option" where
  "assign_at xs i v =
     (if i < length xs \<and> length xs \<le> max_size then Some (xs[i := v]) else None)"

section \<open>The container\<close>

record 'a sorted_vector =
  storage :: "'a list"
  last_modified :: nat
  is_corrupted :: bool
  flag_suspend_autorepair :: bool

text \<open>The default constructor: the member initialisers of the class.\<close>

definition new_sv :: "'a sorted_vector" where
  "new_sv = \<lparr>storage = [], last_modified = SIZE_MAX, is_corrupted = False,
             flag_suspend_autorepair = False\<rparr>"

definition corrupted :: "'a sorted_vector \<Rightarrow> bool" where
  "corrupted c = is_corrupted c"

definition size_sv :: "'a sorted_vector \<Rightarrow> nat" where
  "size_sv c = length (storage c)"

text \<open>
  \<open>sort()\<close>: \<open>std::sort\<close> on the whole storage, then the corrupted flag is cleared. The
  elements are linearly ordered, so the sorted sequence is unique and \<open>sort\<close> gives it.
\<close>

definition sort_sv :: "'a::linorder sorted_vector \<Rightarrow> 'a sorted_vector" where
  "sort_sv c = c\<lparr>storage := sort (storage c), is_corrupted := False\<rparr>"

text \<open>The constructor from a \<open>std::vector\<close>: copy, then \<open>sort()\<close>.\<close>

definition from_vector :: "'a::linorder list \<Rightarrow> 'a sorted_vector" where
  "from_vector v = sort_sv (new_sv\<lparr>storage := v\<rparr>)"

section \<open>Linear search\<close>

text \<open>
  \<open>while (start_pos != end_pos) { if (_storage[start_pos++] == t) return start_pos - 1; }
  return -1;\<close>
\<close>

function find_linear_loop :: "'a list \<Rightarrow> 'a \<Rightarrow> nat \<Rightarrow> nat \<Rightarrow> nat option" where
  "find_linear_loop xs t start_pos end_pos =
     (if start_pos \<noteq> end_pos then
        (case elem xs start_pos of
           None \<Rightarrow> None
         | Some x \<Rightarrow>
             if x = t then Some (sz_sub (sz_add start_pos 1) 1)
             else find_linear_loop xs t (sz_add start_pos 1) end_pos)
      else Some SIZE_MAX)"
  by pat_completeness auto
termination
  by (relation "measure (\<lambda>(xs, t, s, e). length xs - s)")
     (auto simp: elem_def sz_add_def max_size_def split: if_splits)

declare find_linear_loop.simps [simp del]

definition find_linear :: "'a sorted_vector \<Rightarrow> 'a \<Rightarrow> nat \<Rightarrow> nat \<Rightarrow> nat option" where
  "find_linear c t start_pos end_pos0 =
     (if size_sv c = 0 then Some SIZE_MAX
      else
        let end_pos = (if end_pos0 = SIZE_MAX then sz_sub (size_sv c) 1 else end_pos0) in
        if start_pos > end_pos then Some SIZE_MAX
        else
          let end_pos' = (if end_pos = SIZE_MAX then sz_sub (length (storage c)) 1 else end_pos)
          in find_linear_loop (storage c) t start_pos end_pos')"

definition find_linear_first :: "'a sorted_vector \<Rightarrow> 'a \<Rightarrow> nat \<Rightarrow> nat \<Rightarrow> nat option" where
  "find_linear_first c t start_pos end_pos0 =
     (if size_sv c = 0 then Some SIZE_MAX
      else
        let end_pos = (if end_pos0 = SIZE_MAX then sz_sub (size_sv c) 1 else end_pos0) in
        if start_pos > end_pos then Some SIZE_MAX
        else
          let end_pos' = (if end_pos = SIZE_MAX then sz_sub (length (storage c)) 1 else end_pos)
          in find_linear_loop (storage c) t start_pos end_pos')"

text \<open>
  \<open>while (start_pos != end_pos) { if (_storage[end_pos--] == t) return end_pos + 1; }
  return -1;\<close>
\<close>

function find_linear_last_loop :: "'a list \<Rightarrow> 'a \<Rightarrow> nat \<Rightarrow> nat \<Rightarrow> nat option" where
  "find_linear_last_loop xs t start_pos end_pos =
     (if start_pos \<noteq> end_pos then
        (case elem xs end_pos of
           None \<Rightarrow> None
         | Some x \<Rightarrow>
             if x = t then Some (sz_add (sz_sub end_pos 1) 1)
             else find_linear_last_loop xs t start_pos (sz_sub end_pos 1))
      else Some SIZE_MAX)"
  by pat_completeness auto
termination
  by (relation "measure (\<lambda>(xs, t, s, e). if e < length xs then Suc e else 0)")
     (auto simp: elem_def sz_sub_def max_size_def split: if_splits)

declare find_linear_last_loop.simps [simp del]

definition find_linear_last :: "'a sorted_vector \<Rightarrow> 'a \<Rightarrow> nat \<Rightarrow> nat \<Rightarrow> nat option" where
  "find_linear_last c t start_pos end_pos0 =
     (if size_sv c = 0 then Some SIZE_MAX
      else
        let end_pos = (if end_pos0 = SIZE_MAX then sz_sub (size_sv c) 1 else end_pos0) in
        if start_pos > end_pos then Some SIZE_MAX
        else
          let end_pos' = (if end_pos = SIZE_MAX then sz_sub (length (storage c)) 1 else end_pos)
          in find_linear_last_loop (storage c) t start_pos end_pos')"

section \<open>Binary search\<close>

text \<open>
  The loop of \<open>find\<close>. The source keeps the midpoint in a variable \<open>m\<close> that it sets to
  \<open>(f + l) / 2\<close> before the loop and again at the end of every iteration, so at the loop
  head \<open>m\<close> is always \<open>(f + l) / 2\<close> of the current bounds; the model computes it there.
\<close>

function find_loop :: "'a::linorder list \<Rightarrow> 'a \<Rightarrow> nat \<Rightarrow> nat \<Rightarrow> nat option" where
  "find_loop xs t f l =
     (if f \<le> l then
        (case elem xs (sz_add f l div 2) of
           None \<Rightarrow> None
         | Some xm \<Rightarrow>
             if xm = t then Some (sz_add f l div 2)
             else
               (case elem xs f of
                  None \<Rightarrow> None
                | Some xf \<Rightarrow>
                    if xf = t then Some f
                    else
                      (case elem xs l of
                         None \<Rightarrow> None
                       | Some xl \<Rightarrow>
                           if xl = t then Some l
                           else if xm < t then find_loop xs t (sz_add (sz_add f l div 2) 1) l
                           else if sz_add f l div 2 = 0 then Some SIZE_MAX
                           else find_loop xs t f (sz_sub (sz_add f l div 2) 1))))
      else Some SIZE_MAX)"
  by pat_completeness auto
termination
  by (relation "measure (\<lambda>(xs, t, f, l). Suc l - f)")
     (auto simp: elem_def sz_add_def sz_sub_def max_size_def split: if_splits)

declare find_loop.simps [simp del]

definition find_sv :: "'a::linorder sorted_vector \<Rightarrow> 'a \<Rightarrow> nat \<Rightarrow> nat \<Rightarrow> nat option" where
  "find_sv c t start_pos end_pos =
     (if storage c = [] then Some SIZE_MAX
      else if \<not> is_corrupted c then
        find_loop (storage c) t start_pos
          (if end_pos = SIZE_MAX then sz_sub (length (storage c)) 1 else end_pos)
      else find_linear c t start_pos end_pos)"

text \<open>
  \<open>size_t prev_pos; while ((t == _storage[pos]) && (pos >= start_pos)) prev_pos = pos--;
  return prev_pos;\<close>
  The element is read before the position is compared with \<open>start_pos\<close>. \<open>prev_pos\<close>
  starts uninitialised: \<open>None\<close> until the body has run once.
\<close>

function find_first_walk :: "'a list \<Rightarrow> 'a \<Rightarrow> nat \<Rightarrow> nat \<Rightarrow> nat option \<Rightarrow> nat option" where
  "find_first_walk xs t start_pos pos prev_pos =
     (case elem xs pos of
        None \<Rightarrow> None
      | Some x \<Rightarrow>
          if t = x \<and> pos \<ge> start_pos
          then find_first_walk xs t start_pos (sz_sub pos 1) (Some pos)
          else prev_pos)"
  by pat_completeness auto
termination
  by (relation "measure (\<lambda>(xs, t, s, pos, prev). if pos < length xs then Suc pos else 0)")
     (auto simp: elem_def sz_sub_def max_size_def split: if_splits)

declare find_first_walk.simps [simp del]

definition find_first :: "'a::linorder sorted_vector \<Rightarrow> 'a \<Rightarrow> nat \<Rightarrow> nat \<Rightarrow> nat option" where
  "find_first c t start_pos end_pos0 =
     (if storage c = [] then Some SIZE_MAX
      else
        let end_pos = (if end_pos0 = SIZE_MAX then sz_sub (length (storage c)) 1 else end_pos0)
        in
          if \<not> is_corrupted c then
            (case find_sv c t start_pos end_pos of
               None \<Rightarrow> None
             | Some pos \<Rightarrow>
                 if pos = SIZE_MAX then Some SIZE_MAX
                 else find_first_walk (storage c) t start_pos pos None)
          else find_linear_first c t start_pos end_pos)"

text \<open>
  \<open>size_t prev_pos; while ((t == _storage[pos]) && (pos <= end_pos)) prev_pos = pos++;
  return prev_pos;\<close>
\<close>

function find_last_walk :: "'a list \<Rightarrow> 'a \<Rightarrow> nat \<Rightarrow> nat \<Rightarrow> nat option \<Rightarrow> nat option" where
  "find_last_walk xs t end_pos pos prev_pos =
     (case elem xs pos of
        None \<Rightarrow> None
      | Some x \<Rightarrow>
          if t = x \<and> pos \<le> end_pos
          then find_last_walk xs t end_pos (sz_add pos 1) (Some pos)
          else prev_pos)"
  by pat_completeness auto
termination
  by (relation "measure (\<lambda>(xs, t, e, pos, prev). length xs - pos)")
     (auto simp: elem_def sz_add_def max_size_def split: if_splits)

declare find_last_walk.simps [simp del]

text \<open>The corrupted branch calls \<open>find_linear_last(t)\<close> with its default range.\<close>

definition find_last :: "'a::linorder sorted_vector \<Rightarrow> 'a \<Rightarrow> nat \<Rightarrow> nat \<Rightarrow> nat option" where
  "find_last c t start_pos end_pos0 =
     (let end_pos = (if end_pos0 = SIZE_MAX then sz_sub (length (storage c)) 1 else end_pos0)
      in
        if \<not> is_corrupted c then
          (case find_sv c t start_pos end_pos of
             None \<Rightarrow> None
           | Some pos \<Rightarrow>
               if pos = SIZE_MAX then Some SIZE_MAX
               else find_last_walk (storage c) t end_pos pos None)
        else find_linear_last c t 0 SIZE_MAX)"

definition find_next :: "'a::linorder sorted_vector \<Rightarrow> nat \<Rightarrow> nat \<Rightarrow> nat option" where
  "find_next c current_pos end_pos0 =
     (let end_pos = (if end_pos0 = SIZE_MAX then sz_sub (length (storage c)) 1 else end_pos0)
      in
        if current_pos = end_pos then Some SIZE_MAX
        else if \<not> is_corrupted c then
          (case elem (storage c) current_pos of
             None \<Rightarrow> None
           | Some a \<Rightarrow>
               (case elem (storage c) (sz_add current_pos 1) of
                  None \<Rightarrow> None
                | Some b \<Rightarrow> if a = b then Some (sz_add current_pos 1) else Some SIZE_MAX))
        else
          (case elem (storage c) current_pos of
             None \<Rightarrow> None
           | Some a \<Rightarrow> find_first c a (sz_add current_pos 1) end_pos))"

definition find_prev :: "'a::linorder sorted_vector \<Rightarrow> nat \<Rightarrow> nat \<Rightarrow> nat option" where
  "find_prev c current_pos start_pos =
     (if current_pos \<le> start_pos then Some SIZE_MAX
      else if \<not> is_corrupted c then
        (case elem (storage c) current_pos of
           None \<Rightarrow> None
         | Some a \<Rightarrow>
             (case elem (storage c) (sz_sub current_pos 1) of
                None \<Rightarrow> None
              | Some b \<Rightarrow> if a = b then Some (sz_sub current_pos 1) else Some SIZE_MAX))
      else
        (case elem (storage c) current_pos of
           None \<Rightarrow> None
         | Some a \<Rightarrow> find_last c a start_pos (sz_sub current_pos 1)))"

section \<open>Floor and ceiling\<close>

text \<open>
  The walk of \<open>find_floor\<close> inside a block of elements equal to \<open>t\<close>:
  \<open>while (m-- > f) { if (!(_storage[m] == t)) return m + 1; } return f;\<close>
\<close>

function find_floor_walk :: "'a list \<Rightarrow> 'a \<Rightarrow> nat \<Rightarrow> nat \<Rightarrow> nat option" where
  "find_floor_walk xs t f m =
     (if m > f then
        (case elem xs (sz_sub m 1) of
           None \<Rightarrow> None
         | Some x \<Rightarrow>
             if x \<noteq> t then Some (sz_add (sz_sub m 1) 1)
             else find_floor_walk xs t f (sz_sub m 1))
      else Some f)"
  by pat_completeness auto
termination
  by (relation "measure (\<lambda>(xs, t, f, m). m)") (auto simp: sz_sub_def split: if_splits)

declare find_floor_walk.simps [simp del]

text \<open>
  The main loop of \<open>find_floor\<close> and the three-way choice after it. As in \<open>find\<close>, \<open>m\<close>
  is \<open>(f + l) / 2\<close> of the current bounds whenever the loop condition is tested. The loop
  reads \<open>_storage[m]\<close> only, so nothing bounds \<open>l\<close>, and for some bounds it does not
  return: \<open>None\<close> is then the value.
\<close>

partial_function (option) find_floor_loop ::
  "'a::linorder list \<Rightarrow> 'a \<Rightarrow> nat \<Rightarrow> nat \<Rightarrow> nat option" where
  "find_floor_loop xs t f l =
     (if f < l then
        (case elem xs (sz_add f l div 2) of
           None \<Rightarrow> None
         | Some xm \<Rightarrow>
             if xm = t then find_floor_walk xs t f (sz_add f l div 2)
             else if xm < t then find_floor_loop xs t (sz_add (sz_add f l div 2) 1) l
             else find_floor_loop xs t f (sz_sub (sz_add f l div 2) 1))
      else
        (case elem xs (sz_add l f div 2) of
           None \<Rightarrow> None
         | Some xm \<Rightarrow>
             if xm = t then Some (sz_add l f div 2)
             else if xm < t then Some (sz_add l f div 2)
             else Some (sz_sub (sz_add l f div 2) 1)))"

declare find_floor_loop.simps [code]

definition find_floor :: "'a::linorder sorted_vector \<Rightarrow> 'a \<Rightarrow> nat \<Rightarrow> nat \<Rightarrow> nat option" where
  "find_floor c t start_pos end_pos0 =
     (if storage c = [] then Some SIZE_MAX
      else
        let end_pos = (if end_pos0 = SIZE_MAX then sz_sub (length (storage c)) 1 else end_pos0)
        in
          if \<not> is_corrupted c then
            (case elem (storage c) start_pos of
               None \<Rightarrow> None
             | Some a \<Rightarrow>
                 if a > t then Some SIZE_MAX
                 else
                   (case elem (storage c) end_pos of
                      None \<Rightarrow> None
                    | Some b \<Rightarrow>
                        if b < t then Some end_pos
                        else find_floor_loop (storage c) t start_pos end_pos))
          else Some SIZE_MAX)"

text \<open>
  The walk of \<open>find_ceil\<close> inside a block of elements equal to \<open>t\<close>:
  \<open>while (m++ < l) { if (!(_storage[m] == t)) return m - 1; } return l;\<close>
\<close>

function find_ceil_walk :: "'a list \<Rightarrow> 'a \<Rightarrow> nat \<Rightarrow> nat \<Rightarrow> nat option" where
  "find_ceil_walk xs t l m =
     (if m < l then
        (case elem xs (sz_add m 1) of
           None \<Rightarrow> None
         | Some x \<Rightarrow>
             if x \<noteq> t then Some (sz_sub (sz_add m 1) 1)
             else find_ceil_walk xs t l (sz_add m 1))
      else Some l)"
  by pat_completeness auto
termination
  by (relation "measure (\<lambda>(xs, t, l, m).
        if m < SIZE_MAX then length xs - m else Suc (length xs))")
     (auto simp: elem_def sz_add_def max_size_def SIZE_MAX_def split: if_splits)

declare find_ceil_walk.simps [simp del]

partial_function (option) find_ceil_loop ::
  "'a::linorder list \<Rightarrow> 'a \<Rightarrow> nat \<Rightarrow> nat \<Rightarrow> nat option" where
  "find_ceil_loop xs t f l =
     (if f < l then
        (case elem xs (sz_add f l div 2) of
           None \<Rightarrow> None
         | Some xm \<Rightarrow>
             if xm = t then find_ceil_walk xs t l (sz_add f l div 2)
             else if xm < t then find_ceil_loop xs t (sz_add (sz_add f l div 2) 1) l
             else find_ceil_loop xs t f (sz_sub (sz_add f l div 2) 1))
      else
        (case elem xs (sz_add f l div 2) of
           None \<Rightarrow> None
         | Some xm \<Rightarrow>
             if xm = t then Some (sz_add f l div 2)
             else if xm > t then Some (sz_add f l div 2)
             else Some (sz_add (sz_add f l div 2) 1)))"

declare find_ceil_loop.simps [code]

text \<open>The first test of \<open>find_ceil\<close> reads \<open>_storage[0]\<close>, whatever \<open>start_pos\<close> is.\<close>

definition find_ceil :: "'a::linorder sorted_vector \<Rightarrow> 'a \<Rightarrow> nat \<Rightarrow> nat \<Rightarrow> nat option" where
  "find_ceil c t start_pos end_pos0 =
     (if storage c = [] then Some SIZE_MAX
      else
        let end_pos = (if end_pos0 = SIZE_MAX then sz_sub (length (storage c)) 1 else end_pos0)
        in
          if \<not> is_corrupted c then
            (case elem (storage c) 0 of
               None \<Rightarrow> None
             | Some a \<Rightarrow>
                 if a > t then Some 0
                 else
                   (case elem (storage c) end_pos of
                      None \<Rightarrow> None
                    | Some b \<Rightarrow>
                        if b < t then Some SIZE_MAX
                        else find_ceil_loop (storage c) t start_pos end_pos))
          else Some SIZE_MAX)"

section \<open>Repair\<close>

text \<open>
  \<open>single_shift_left\<close> and \<open>single_shift_right\<close>, in the variant without
  \<open>CIM_SORTED_VECTOR_USE_MEMMOVE\<close> (the directive is commented out): the element at one
  end of the range is taken out and inserted again at the other end.
\<close>

definition single_shift_left ::
  "'a sorted_vector \<Rightarrow> nat \<Rightarrow> nat \<Rightarrow> 'a sorted_vector option" where
  "single_shift_left c start_pos end_pos0 =
     (if start_pos = end_pos0 then Some c
      else
        let end_pos = (if end_pos0 = SIZE_MAX then sz_sub (size_sv c) 1 else end_pos0) in
        (case elem (storage c) start_pos of
           None \<Rightarrow> None
         | Some t \<Rightarrow>
             (case erase_at (storage c) start_pos of
                None \<Rightarrow> None
              | Some ys \<Rightarrow>
                  (case insert_at ys end_pos t of
                     None \<Rightarrow> None
                   | Some zs \<Rightarrow> Some (c\<lparr>storage := zs\<rparr>)))))"

definition single_shift_right ::
  "'a sorted_vector \<Rightarrow> nat \<Rightarrow> nat \<Rightarrow> 'a sorted_vector option" where
  "single_shift_right c start_pos end_pos0 =
     (if start_pos = end_pos0 then Some c
      else
        let end_pos = (if end_pos0 = SIZE_MAX then sz_sub (size_sv c) 1 else end_pos0) in
        (case elem (storage c) end_pos of
           None \<Rightarrow> None
         | Some t \<Rightarrow>
             (case erase_at (storage c) end_pos of
                None \<Rightarrow> None
              | Some ys \<Rightarrow>
                  (case insert_at ys start_pos t of
                     None \<Rightarrow> None
                   | Some zs \<Rightarrow> Some (c\<lparr>storage := zs\<rparr>)))))"

text \<open>\<open>_storage[i] < _storage[j]\<close>: both elements are read.\<close>

definition lt_at :: "'a::linorder list \<Rightarrow> nat \<Rightarrow> nat \<Rightarrow> bool option" where
  "lt_at xs i j =
     (case elem xs i of
        None \<Rightarrow> None
      | Some a \<Rightarrow> (case elem xs j of None \<Rightarrow> None | Some b \<Rightarrow> Some (a < b)))"

text \<open>
  The branch of \<open>repair\<close> for one tracked position, entered after \<open>_is_corrupted\<close> has
  been cleared. The source moves \<open>_storage[_last_modified]\<close> into a local \<open>t\<close> before the
  shift; the moved-from element is the one the shift relocates to the target position,
  where the final assignment overwrites it with \<open>t\<close>, so its value is never observed.
\<close>

definition repair_single :: "'a::linorder sorted_vector \<Rightarrow> 'a sorted_vector option" where
  "repair_single c =
     (case (if last_modified c > 0
            then lt_at (storage c) (last_modified c) (sz_sub (last_modified c) 1)
            else Some False) of
        None \<Rightarrow> None
      | Some True \<Rightarrow>
          (case elem (storage c) (last_modified c) of
             None \<Rightarrow> None
           | Some t \<Rightarrow>
               (case find_ceil c t 0 (sz_sub (last_modified c) 1) of
                  None \<Rightarrow> None
                | Some pos_ceil \<Rightarrow>
                    (case single_shift_right c pos_ceil (last_modified c) of
                       None \<Rightarrow> None
                     | Some c1 \<Rightarrow>
                         (case assign_at (storage c1) pos_ceil t of
                            None \<Rightarrow> None
                          | Some zs \<Rightarrow> Some (c1\<lparr>storage := zs\<rparr>)))))
      | Some False \<Rightarrow>
          (case (if last_modified c < sz_sub (length (storage c)) 1
                 then lt_at (storage c) (sz_add (last_modified c) 1) (last_modified c)
                 else Some False) of
             None \<Rightarrow> None
           | Some True \<Rightarrow>
               (case elem (storage c) (last_modified c) of
                  None \<Rightarrow> None
                | Some t \<Rightarrow>
                    (case find_floor c t (sz_add (last_modified c) 1)
                            (sz_sub (length (storage c)) 1) of
                       None \<Rightarrow> None
                     | Some pos_floor \<Rightarrow>
                         (case single_shift_left c (last_modified c) pos_floor of
                            None \<Rightarrow> None
                          | Some c1 \<Rightarrow>
                              (case assign_at (storage c1) pos_floor t of
                                 None \<Rightarrow> None
                               | Some zs \<Rightarrow> Some (c1\<lparr>storage := zs\<rparr>)))))
           | Some False \<Rightarrow> Some c))"

definition repair :: "'a::linorder sorted_vector \<Rightarrow> 'a sorted_vector option" where
  "repair c =
     (if is_corrupted c then
        (if last_modified c = SIZE_MAX then Some ((sort_sv c)\<lparr>last_modified := SIZE_MAX\<rparr>)
         else
           (case repair_single (c\<lparr>is_corrupted := False\<rparr>) of
              None \<Rightarrow> None
            | Some c' \<Rightarrow> Some (c'\<lparr>last_modified := SIZE_MAX\<rparr>)))
      else Some c)"

section \<open>Mutators\<close>

text \<open>
  With \<open>CIM_SORTED_VECTOR_AUTOREPAIR\<close> defined and
  \<open>CIM_SORTED_VECTOR_IGNORE_POSSIBLY_CORRUPTED\<close> not, as in the source: a mutator of a
  corrupted container first repairs it unless autorepair is suspended.
\<close>

definition autorepair :: "'a::linorder sorted_vector \<Rightarrow> 'a sorted_vector option" where
  "autorepair c =
     (if is_corrupted c \<and> \<not> flag_suspend_autorepair c then repair c else Some c)"

definition push :: "'a::linorder sorted_vector \<Rightarrow> 'a \<Rightarrow> 'a sorted_vector option" where
  "push c0 t =
     (case autorepair c0 of
        None \<Rightarrow> None
      | Some c \<Rightarrow>
          if \<not> is_corrupted c then
            if length (storage c) = 0 then Some (c\<lparr>storage := storage c @ [t]\<rparr>)
            else
              (case find_ceil c t 0 SIZE_MAX of
                 None \<Rightarrow> None
               | Some pos \<Rightarrow>
                   if pos = SIZE_MAX then Some (c\<lparr>storage := storage c @ [t]\<rparr>)
                   else
                     (case elem (storage c) pos of
                        None \<Rightarrow> None
                      | Some x \<Rightarrow>
                          (case insert_at (storage c) (if x = t then pos + 1 else pos) t of
                             None \<Rightarrow> None
                           | Some zs \<Rightarrow> Some (c\<lparr>storage := zs\<rparr>))))
          else Some (c\<lparr>storage := storage c @ [t]\<rparr>))"

definition replace :: "'a::linorder sorted_vector \<Rightarrow> 'a \<Rightarrow> 'a sorted_vector option" where
  "replace c0 t =
     (case autorepair c0 of
        None \<Rightarrow> None
      | Some c \<Rightarrow>
          (case find_sv c t 0 SIZE_MAX of
             None \<Rightarrow> None
           | Some pos \<Rightarrow>
               if pos \<noteq> SIZE_MAX then
                 (case assign_at (storage c) pos t of
                    None \<Rightarrow> None
                  | Some zs \<Rightarrow> Some (c\<lparr>storage := zs\<rparr>))
               else push c t))"

text \<open>\<open>merge\<close> of a \<open>std::vector\<close> (the overload for a \<open>sorted_vector\<close> appends its storage).\<close>

definition merge_sv :: "'a::linorder sorted_vector \<Rightarrow> 'a list \<Rightarrow> 'a sorted_vector option" where
  "merge_sv c v =
     repair (c\<lparr>storage := storage c @ v, last_modified := SIZE_MAX, is_corrupted := True\<rparr>)"

definition suspend_autorepair :: "'a sorted_vector \<Rightarrow> 'a sorted_vector" where
  "suspend_autorepair c =
     c\<lparr>flag_suspend_autorepair := True, last_modified := SIZE_MAX, is_corrupted := True\<rparr>"

definition resume_autorepair :: "'a::linorder sorted_vector \<Rightarrow> 'a sorted_vector option" where
  "resume_autorepair c = repair (c\<lparr>flag_suspend_autorepair := False\<rparr>)"

section \<open>Element access\<close>

datatype error = OutOfRange

text \<open>
  The non-const \<open>at(pos)\<close> is \<open>return _storage.at(pos);\<close> and nothing else: it throws for a
  position outside the storage and otherwise hands out a reference to the element at
  \<open>pos\<close>. The result is the state of the container after the call.
\<close>

definition at_sv :: "'a sorted_vector \<Rightarrow> nat \<Rightarrow> error + 'a sorted_vector" where
  "at_sv c pos = (if pos < length (storage c) then Inr c else Inl OutOfRange)"

text \<open>
  The non-const \<open>operator[](pos)\<close>: repair unless suspended, then the tracking update, then
  a reference to \<open>_storage[pos]\<close>. The result is the state after the call; the reference
  is to position \<open>pos\<close> of its storage. The non-const iterator's \<open>operator*\<close> is
  \<open>_owner->operator[](_pos)\<close>.
\<close>

definition operator_index :: "'a::linorder sorted_vector \<Rightarrow> nat \<Rightarrow> 'a sorted_vector option" where
  "operator_index c0 pos =
     (case (if \<not> flag_suspend_autorepair c0 then repair c0 else Some c0) of
        None \<Rightarrow> None
      | Some c \<Rightarrow>
          if pos < length (storage c) \<and> length (storage c) \<le> max_size
          then Some (c\<lparr>last_modified := (if is_corrupted c then SIZE_MAX else pos),
                       is_corrupted := True\<rparr>)
          else None)"

definition iterator_deref :: "'a::linorder sorted_vector \<Rightarrow> nat \<Rightarrow> 'a sorted_vector option" where
  "iterator_deref c pos = operator_index c pos"

text \<open>An assignment through a reference to the element at \<open>pos\<close>.\<close>

definition write_ref :: "'a sorted_vector \<Rightarrow> nat \<Rightarrow> 'a \<Rightarrow> 'a sorted_vector" where
  "write_ref c pos v = c\<lparr>storage := (storage c)[pos := v]\<rparr>"

section \<open>Sequences of calls\<close>

datatype 'a call = Push 'a | Replace 'a | Merge "'a list"

fun do_call :: "'a::linorder sorted_vector \<Rightarrow> 'a call \<Rightarrow> 'a sorted_vector option" where
  "do_call c (Push t) = push c t"
| "do_call c (Replace t) = replace c t"
| "do_call c (Merge v) = merge_sv c v"

fun do_calls :: "'a::linorder sorted_vector \<Rightarrow> 'a call list \<Rightarrow> 'a sorted_vector option" where
  "do_calls c [] = Some c"
| "do_calls c (x # xs) = (case do_call c x of None \<Rightarrow> None | Some c' \<Rightarrow> do_calls c' xs)"

text \<open>The number of elements a call can add to the storage.\<close>

fun call_size :: "'a call \<Rightarrow> nat" where
  "call_size (Push t) = 1"
| "call_size (Replace t) = 1"
| "call_size (Merge v) = length v"

section \<open>Basic facts\<close>

lemmas sz_defs = SIZE_MAX_def sz_add_def sz_sub_def max_size_def elem_def size_sv_def

lemma elem_Some: "i < length xs \<Longrightarrow> length xs \<le> max_size \<Longrightarrow> elem xs i = Some (xs ! i)"
  by (simp add: elem_def)

lemma sz_add_plain: "a + b < 18446744073709551616 \<Longrightarrow> sz_add a b = a + b"
  by (simp add: sz_add_def)

lemma sz_sub_plain: "b \<le> a \<Longrightarrow> sz_sub a b = a - b"
  by (simp add: sz_sub_def)

lemma single_shift_right_fields:
  "single_shift_right c s e = Some c' \<Longrightarrow>
     is_corrupted c' = is_corrupted c \<and> flag_suspend_autorepair c' = flag_suspend_autorepair c"
  by (auto simp: single_shift_right_def Let_def split: if_splits option.splits)

lemma single_shift_left_fields:
  "single_shift_left c s e = Some c' \<Longrightarrow>
     is_corrupted c' = is_corrupted c \<and> flag_suspend_autorepair c' = flag_suspend_autorepair c"
  by (auto simp: single_shift_left_def Let_def split: if_splits option.splits)

lemma repair_single_fields:
  assumes "repair_single c = Some c'"
  shows "is_corrupted c' = is_corrupted c \<and> flag_suspend_autorepair c' = flag_suspend_autorepair c"
proof (cases "if last_modified c > 0
            then lt_at (storage c) (last_modified c) (sz_sub (last_modified c) 1)
            else Some False")
  case None
  with assms show ?thesis by (simp add: repair_single_def)
next
  case (Some b)
  show ?thesis
  proof (cases b)
    case True
    with Some assms show ?thesis
      by (auto simp: repair_single_def split: option.splits dest!: single_shift_right_fields)
  next
    case False
    with Some assms show ?thesis
      by (auto simp: repair_single_def split: option.splits bool.splits
          dest!: single_shift_left_fields)
  qed
qed

text \<open>Whatever \<open>repair\<close> returns is not corrupted, and the suspend flag is untouched.\<close>

lemma repair_clears:
  assumes "repair c = Some c'"
  shows "\<not> is_corrupted c' \<and> flag_suspend_autorepair c' = flag_suspend_autorepair c"
proof (cases "is_corrupted c")
  case False
  with assms show ?thesis by (simp add: repair_def)
next
  case True
  show ?thesis
  proof (cases "last_modified c = SIZE_MAX")
    case True
    with \<open>is_corrupted c\<close> assms show ?thesis by (auto simp: repair_def sort_sv_def)
  next
    case False
    with \<open>is_corrupted c\<close> assms obtain c1 where
      "repair_single (c\<lparr>is_corrupted := False\<rparr>) = Some c1" "c' = c1\<lparr>last_modified := SIZE_MAX\<rparr>"
      by (auto simp: repair_def split: option.splits)
    then show ?thesis using repair_single_fields[of "c\<lparr>is_corrupted := False\<rparr>" c1] by simp
  qed
qed

lemma repair_sorted_state: "\<not> is_corrupted c \<Longrightarrow> repair c = Some c"
  by (simp add: repair_def)

section \<open>Linear search and the corrupted state\<close>

text \<open>
  A corrupted container with the tracked position 2 is what \<open>operator[](2)\<close> leaves
  behind on a freshly constructed container.
\<close>

lemma dirty_state_reachable:
  "operator_index (from_vector [1, 2, 3 :: int]) 2 =
     Some \<lparr>storage = [1, 2, 3], last_modified = 2, is_corrupted = True,
           flag_suspend_autorepair = False\<rparr>"
  by (simp add: operator_index_def from_vector_def sort_sv_def new_sv_def repair_def sz_defs)

text \<open>
  Claim C1 (search correctness in every state): \<open>find(t)\<close> returns a position holding
  \<open>t\<close> whenever the searched range holds \<open>t\<close>. In the corrupted state \<open>find\<close> hands over
  to \<open>find_linear\<close>, whose loop stops before it has looked at \<open>end_pos\<close>: on the corrupted
  container \<open>[1, 2, 3]\<close>, \<open>find(3)\<close> is the not-found sentinel although position 2 holds 3.
\<close>

theorem find_dirty_misses_last_element:
  "find_sv \<lparr>storage = [1, 2, 3 :: int], last_modified = 2, is_corrupted = True,
            flag_suspend_autorepair = False\<rparr> 3 0 SIZE_MAX = Some SIZE_MAX
   \<and> elem [1, 2, 3 :: int] 2 = Some 3"
  by (simp add: find_sv_def find_linear_def find_linear_loop.simps sz_defs)

text \<open>
  Claim C6 (\<open>find_linear\<close> searches the inclusive range): with \<open>start_pos = 0\<close> and
  \<open>end_pos = 2\<close> on \<open>[4, 5, 6]\<close> the element at \<open>end_pos\<close> is 6, and \<open>find_linear(6, 0, 2)\<close>
  is the not-found sentinel: the loop condition \<open>start_pos != end_pos\<close> ends the scan one
  element early.
\<close>

theorem find_linear_skips_end_pos:
  "find_linear \<lparr>storage = [4, 5, 6 :: int], last_modified = SIZE_MAX, is_corrupted = False,
                flag_suspend_autorepair = False\<rparr> 6 0 2 = Some SIZE_MAX
   \<and> elem [4, 5, 6 :: int] 2 = Some 6"
  by (simp add: find_linear_def find_linear_loop.simps sz_defs)

text \<open>
  Claim C2 (every search falls back to a linear scan on a corrupted container): on the
  corrupted container \<open>[1, 2, 3]\<close>, \<open>find_floor(2)\<close> and \<open>find_ceil(2)\<close> are both the
  not-found sentinel, although position 1 holds 2.
\<close>

theorem floor_ceil_corrupted_not_found:
  "find_floor \<lparr>storage = [1, 2, 3 :: int], last_modified = SIZE_MAX, is_corrupted = True,
               flag_suspend_autorepair = True\<rparr> 2 0 SIZE_MAX = Some SIZE_MAX
   \<and> find_ceil \<lparr>storage = [1, 2, 3 :: int], last_modified = SIZE_MAX, is_corrupted = True,
               flag_suspend_autorepair = True\<rparr> 2 0 SIZE_MAX = Some SIZE_MAX
   \<and> elem [1, 2, 3 :: int] 1 = Some 2"
  by (simp add: find_floor_def find_ceil_def sz_defs)

text \<open>The same for every non-empty corrupted container, value and range.\<close>

lemma floor_ceil_corrupted:
  "is_corrupted c \<Longrightarrow>
     find_floor c t start_pos end_pos = Some SIZE_MAX
     \<and> find_ceil c t start_pos end_pos = Some SIZE_MAX"
  by (simp add: find_floor_def find_ceil_def Let_def)

section \<open>The empty container\<close>

text \<open>
  Claim C9 (every search method returns not-found on an empty container, for every
  position argument): \<open>find_next(0)\<close> and \<open>find_prev(1)\<close> on the default-constructed
  container read \<open>_storage[0]\<close> and \<open>_storage[1]\<close> of an empty vector, so they have no
  defined result. Neither method tests for emptiness, and in \<open>find_next\<close> the default
  \<open>end_pos\<close> becomes \<open>size() - 1\<close>, which wraps to \<open>(size_t)-1\<close>.
\<close>

theorem find_next_prev_empty_out_of_range:
  "find_next (new_sv :: int sorted_vector) 0 SIZE_MAX = None
   \<and> find_prev (new_sv :: int sorted_vector) 1 0 = None"
  by (simp add: find_next_def find_prev_def new_sv_def sz_defs)

text \<open>The eight methods that take a value do return not-found on an empty container.\<close>

lemma value_searches_empty:
  assumes "storage c = []"
  shows "find_sv c t s e = Some SIZE_MAX" "find_first c t s e = Some SIZE_MAX"
    "find_last c t s e = Some SIZE_MAX" "find_linear c t s e = Some SIZE_MAX"
    "find_linear_first c t s e = Some SIZE_MAX" "find_linear_last c t s e = Some SIZE_MAX"
    "find_floor c t s e = Some SIZE_MAX" "find_ceil c t s e = Some SIZE_MAX"
  using assms
  by (simp_all add: find_sv_def find_first_def find_last_def find_linear_def
      find_linear_first_def find_linear_last_def find_floor_def find_ceil_def size_sv_def
      Let_def)

section \<open>The walks of \<open>find_first\<close> and \<open>find_last\<close>\<close>

text \<open>
  Claim C10 (\<open>find_first\<close> and \<open>find_last\<close> on a sorted non-empty container read inside
  the storage only): on the sorted container \<open>[5]\<close> with the range \<open>[0, 0]\<close> both have no
  defined result. The walk of \<open>find_first\<close> steps from position 0 to \<open>(size_t)-1\<close> and
  reads there before it compares the position with \<open>start_pos\<close>; the walk of \<open>find_last\<close>
  reads position 1 before it compares the position with \<open>end_pos\<close>.
\<close>

theorem find_first_last_read_out_of_range:
  "find_first \<lparr>storage = [5 :: int], last_modified = SIZE_MAX, is_corrupted = False,
               flag_suspend_autorepair = False\<rparr> 5 0 0 = None
   \<and> find_last \<lparr>storage = [5 :: int], last_modified = SIZE_MAX, is_corrupted = False,
               flag_suspend_autorepair = False\<rparr> 5 0 0 = None"
  by (simp add: find_first_def find_last_def find_sv_def find_loop.simps
        find_first_walk.simps find_last_walk.simps sz_defs)

text \<open>The step of the walk that leaves the storage, and the read that follows it.\<close>

lemma find_first_walk_wraps:
  "find_first_walk [5 :: int] 5 0 0 None = find_first_walk [5 :: int] 5 0 SIZE_MAX (Some 0)
   \<and> elem [5 :: int] SIZE_MAX = None"
  by (subst find_first_walk.simps) (simp add: sz_defs)

lemma find_last_walk_leaves:
  "find_last_walk [5 :: int] 5 0 0 None = find_last_walk [5 :: int] 5 0 1 (Some 0)
   \<and> elem [5 :: int] 1 = None"
  by (subst find_last_walk.simps) (simp add: sz_defs)

section \<open>Non-const element access\<close>

text \<open>
  Claim C7 as stated (every non-const access takes an already corrupted container to the
  "unknown" tracking state) fails: with autorepair active, \<open>operator[](1)\<close> on a container
  that is corrupted with tracked position 0 first repairs it, and then tracks position 1.
\<close>

theorem operator_index_dirty_autorepair_counterexample:
  "operator_index \<lparr>storage = [1, 2, 3 :: int], last_modified = 0, is_corrupted = True,
                   flag_suspend_autorepair = False\<rparr> 1
   = Some \<lparr>storage = [1, 2, 3], last_modified = 1, is_corrupted = True,
           flag_suspend_autorepair = False\<rparr>
   \<and> (1 :: nat) \<noteq> SIZE_MAX"
  by (simp add: operator_index_def repair_def repair_single_def lt_at_def sz_defs)

text \<open>The non-const \<open>at\<close> changes nothing in the state: it does not mark the container.\<close>

lemma at_sv_keeps_state: "at_sv c pos = Inr c' \<Longrightarrow> c' = c"
  by (simp add: at_sv_def split: if_splits)

section \<open>Correctness of floor and ceiling on a sorted range\<close>

lemma find_floor_walk_correct:
  assumes "length xs \<le> max_size" "m < length xs" "xs ! m = t"
  shows "f \<le> m \<Longrightarrow> \<exists>r. find_floor_walk xs t f m = Some r \<and> f \<le> r \<and> r \<le> m \<and> xs ! r = t
            \<and> (r = f \<or> xs ! (r - 1) \<noteq> t)"
  using assms
proof (induction xs t f m rule: find_floor_walk.induct)
  case (1 xs t f m)
  show ?case
  proof (cases "f < m")
    case False
    with "1.prems" show ?thesis
      by (subst find_floor_walk.simps) simp
  next
    case True
    then have m1: "sz_sub m 1 = m - 1" "sz_add (m - 1) 1 = m" "m - 1 < length xs"
      using "1.prems" by (auto simp: sz_sub_def sz_add_def max_size_def)
    then have el: "elem xs (sz_sub m 1) = Some (xs ! (m - 1))"
      using "1.prems" by (simp add: elem_Some)
    show ?thesis
    proof (cases "xs ! (m - 1) = t")
      case neq: False
      with True el m1 "1.prems" show ?thesis
        by (subst find_floor_walk.simps) simp
    next
      case eq: True
      have "\<exists>r. find_floor_walk xs t f (sz_sub m 1) = Some r \<and> f \<le> r \<and> r \<le> sz_sub m 1
             \<and> xs ! r = t \<and> (r = f \<or> xs ! (r - 1) \<noteq> t)"
        using "1.IH"[OF True el] eq True m1 "1.prems" by simp
      then obtain r where r: "find_floor_walk xs t f (m - 1) = Some r" "f \<le> r" "r \<le> m - 1"
          "xs ! r = t" "r = f \<or> xs ! (r - 1) \<noteq> t"
        using m1 by auto
      have "find_floor_walk xs t f m = Some r"
        using True el eq m1 r by (subst find_floor_walk.simps) simp
      with r show ?thesis by auto
    qed
  qed
qed

text \<open>
  The main loop of \<open>find_floor\<close> on a range \<open>[s, e]\<close> that is sorted, with everything
  left of \<open>f\<close> below \<open>t\<close> and everything right of \<open>l\<close> above it: the loop returns, and
  its result is the first position of \<open>t\<close> if the range holds \<open>t\<close>, and the last position
  of a smaller element otherwise.
\<close>

lemma find_floor_loop_correct:
  fixes xs :: "'a::linorder list"
  assumes len: "length xs \<le> max_size" and e: "e < length xs" and se: "s \<le> e"
    and srt: "\<And>i j. s \<le> i \<Longrightarrow> i \<le> j \<Longrightarrow> j \<le> e \<Longrightarrow> xs ! i \<le> xs ! j"
    and lo: "xs ! s \<le> t" and hi: "t \<le> xs ! e"
  shows "s \<le> f \<Longrightarrow> l \<le> e \<Longrightarrow> f \<le> l + 1
      \<Longrightarrow> (\<And>i. s \<le> i \<Longrightarrow> i < f \<Longrightarrow> xs ! i < t)
      \<Longrightarrow> (\<And>i. l < i \<Longrightarrow> i \<le> e \<Longrightarrow> t < xs ! i)
      \<Longrightarrow> \<exists>r. find_floor_loop xs t f l = Some r \<and> s \<le> r \<and> r \<le> e \<and> xs ! r \<le> t
            \<and> (\<forall>i. s \<le> i \<and> i < r \<longrightarrow> xs ! i < t)
            \<and> (\<forall>i. r < i \<and> i \<le> e \<longrightarrow> (if xs ! r = t then t \<le> xs ! i else t < xs ! i))"
proof (induction "Suc l - f" arbitrary: f l rule: less_induct)
  case less
  let ?Q = "\<lambda>r. s \<le> r \<and> r \<le> e \<and> xs ! r \<le> t
            \<and> (\<forall>i. s \<le> i \<and> i < r \<longrightarrow> xs ! i < t)
            \<and> (\<forall>i. r < i \<and> i \<le> e \<longrightarrow> (if xs ! r = t then t \<le> xs ! i else t < xs ! i))"
  note sf = \<open>s \<le> f\<close> and le = \<open>l \<le> e\<close> and fl = \<open>f \<le> l + 1\<close>
  have below: "xs ! i < t" if "s \<le> i" "i < f" for i using less.prems(4) that .
  have above: "t < xs ! i" if "l < i" "i \<le> e" for i using less.prems(5) that .
  have bnd: "f \<le> max_size" "l < max_size" "e < max_size"
    using sf le fl len e by auto
  have mid: "sz_add f l div 2 = (f + l) div 2" "sz_add l f div 2 = (f + l) div 2"
    using bnd by (simp_all add: sz_add_def max_size_def add.commute)
  define m where "m = (f + l) div 2"
  show ?case
  proof (cases "f < l")
    case True
    then have mb: "f \<le> m" "m < l" by (auto simp: m_def)
    then have ml: "m < length xs" using le e by simp
    have elm: "elem xs m = Some (xs ! m)" using ml len by (simp add: elem_Some)
    consider (eq) "xs ! m = t" | (lt) "xs ! m < t" | (gt) "t < xs ! m"
      using less_linear by blast
    then show ?thesis
    proof cases
      case eq
      obtain r where r: "find_floor_walk xs t f m = Some r" "f \<le> r" "r \<le> m" "xs ! r = t"
        "r = f \<or> xs ! (r - 1) \<noteq> t"
        using find_floor_walk_correct[OF len ml eq mb(1)] by blast
      have res: "find_floor_loop xs t f l = Some r"
        using True elm eq r(1) mid by (subst find_floor_loop.simps) (simp add: m_def)
      have before: "xs ! i < t" if "s \<le> i" "i < r" for i
      proof (cases "i < f")
        case True
        then show ?thesis using below that by simp
      next
        case False
        then have rf: "r \<noteq> f" using that by simp
        then have "xs ! (r - 1) \<noteq> t" using r(5) by simp
        moreover have "xs ! (r - 1) \<le> xs ! r"
          using srt[of "r - 1" r] that r mb sf le by simp
        ultimately have "xs ! (r - 1) < t" using r(4) by simp
        moreover have "xs ! i \<le> xs ! (r - 1)"
          using srt[of i "r - 1"] that r mb sf le by simp
        ultimately show ?thesis by (rule le_less_trans[rotated])
      qed
      have after: "t \<le> xs ! i" if "r < i" "i \<le> e" for i
        using srt[of r i] that r sf by simp
      have "?Q r" using r mb sf le before after by simp
      with res show ?thesis by blast
    next
      case lt
      then have ne: "xs ! m \<noteq> t" by simp
      have res: "find_floor_loop xs t f l = find_floor_loop xs t (m + 1) l"
        using True elm lt ne mid bnd mb
        by (subst find_floor_loop.simps) (simp add: m_def[symmetric] sz_add_def max_size_def)
      have inv: "xs ! i < t" if "s \<le> i" "i < m + 1" for i
      proof -
        have "xs ! i \<le> xs ! m" using srt[of i m] that mb sf le by simp
        then show ?thesis using lt by (rule le_less_trans)
      qed
      have "\<exists>r. find_floor_loop xs t (m + 1) l = Some r \<and> ?Q r"
      proof (rule less.hyps)
        show "Suc l - (m + 1) < Suc l - f" using mb by simp
        show "s \<le> m + 1" using mb sf by simp
        show "l \<le> e" by fact
        show "m + 1 \<le> l + 1" using mb by simp
        show "xs ! i < t" if "s \<le> i" "i < m + 1" for i using inv that .
        show "t < xs ! i" if "l < i" "i \<le> e" for i using above that .
      qed
      then show ?thesis using res by simp
    next
      case gt
      have m0: "m \<noteq> 0"
      proof
        assume "m = 0"
        then have "f = 0" "s = 0" using mb sf by auto
        then show False using lo gt \<open>m = 0\<close> by simp
      qed
      have ne: "xs ! m \<noteq> t" "\<not> xs ! m < t" using gt by auto
      have res: "find_floor_loop xs t f l = find_floor_loop xs t f (m - 1)"
        using True elm ne mid m0
        by (subst find_floor_loop.simps) (auto simp: m_def[symmetric] sz_sub_def)
      have inv: "t < xs ! i" if "m - 1 < i" "i \<le> e" for i
      proof -
        have "m \<le> i" using that m0 by simp
        then have "xs ! m \<le> xs ! i" using srt[of m i] that mb sf by simp
        with gt show ?thesis by (rule less_le_trans)
      qed
      have "\<exists>r. find_floor_loop xs t f (m - 1) = Some r \<and> ?Q r"
      proof (rule less.hyps)
        show "Suc (m - 1) - f < Suc l - f" using mb m0 by simp
        show "s \<le> f" by fact
        show "m - 1 \<le> e" using mb le by simp
        show "f \<le> m - 1 + 1" using mb m0 by simp
        show "xs ! i < t" if "s \<le> i" "i < f" for i using below that .
        show "t < xs ! i" if "m - 1 < i" "i \<le> e" for i using inv that .
      qed
      then show ?thesis using res by simp
    qed
  next
    case False
    then consider (same) "f = l" | (cross) "f = l + 1" using fl by linarith
    then show ?thesis
    proof cases
      case same
      then have mf: "m = f" by (simp add: m_def)
      have ml: "m < length xs" using mf same le e by simp
      have elm: "elem xs m = Some (xs ! m)" using ml len by (simp add: elem_Some)
      have sm: "s \<le> m" "m \<le> e" using mf same sf le by auto
      have bel: "\<forall>i. s \<le> i \<and> i < m \<longrightarrow> xs ! i < t" using below mf by simp
      have abv: "\<forall>i. m < i \<and> i \<le> e \<longrightarrow> t < xs ! i" using above mf same by simp
      consider (eq) "xs ! m = t" | (lt) "xs ! m < t" | (gt) "t < xs ! m"
        using less_linear by blast
      then show ?thesis
      proof cases
        case eq
        have res: "find_floor_loop xs t f l = Some m"
          using False elm eq mid by (subst find_floor_loop.simps) (simp add: m_def[symmetric])
        have "\<forall>i. m < i \<and> i \<le> e \<longrightarrow> t \<le> xs ! i" using abv by (simp add: less_imp_le)
        then have "?Q m" using eq sm bel by simp
        with res show ?thesis by blast
      next
        case lt
        then have ne: "xs ! m \<noteq> t" by simp
        have res: "find_floor_loop xs t f l = Some m"
          using False elm lt ne mid by (subst find_floor_loop.simps) (simp add: m_def[symmetric])
        have "xs ! m \<le> t" using lt by simp
        then have "?Q m" using ne sm bel abv by simp
        with res show ?thesis by blast
      next
        case gt
        have ms: "s < m"
        proof (rule ccontr)
          assume "\<not> s < m"
          then have "m = s" using sm by simp
          then show False using lo gt by simp
        qed
        have ne: "xs ! m \<noteq> t" "\<not> xs ! m < t" using gt by auto
        have res: "find_floor_loop xs t f l = Some (m - 1)"
          using False elm ne mid ms
          by (subst find_floor_loop.simps) (auto simp: m_def[symmetric] sz_sub_def)
        have a: "xs ! (m - 1) < t" using bel ms by simp
        have b: "\<forall>i. m - 1 < i \<and> i \<le> e \<longrightarrow> t < xs ! i"
        proof (intro allI impI)
          fix i assume i: "m - 1 < i \<and> i \<le> e"
          show "t < xs ! i"
          proof (cases "i = m")
            case True then show ?thesis using gt by simp
          next
            case False
            then have "m < i" using i by linarith
            then show ?thesis using abv i by simp
          qed
        qed
        have c: "\<forall>i. s \<le> i \<and> i < m - 1 \<longrightarrow> xs ! i < t"
        proof (intro allI impI)
          fix i assume "s \<le> i \<and> i < m - 1"
          then have "s \<le> i \<and> i < m" by linarith
          then show "xs ! i < t" using bel by blast
        qed
        have d: "xs ! (m - 1) \<noteq> t" "xs ! (m - 1) \<le> t" using a by auto
        have "s \<le> m - 1" "m - 1 \<le> e" using ms sm by auto
        then have "?Q (m - 1)" using b c d by simp
        with res show ?thesis by blast
      qed
    next
      case cross
      then have ml: "m = l" by (simp add: m_def)
      have fs: "s < f"
      proof (rule ccontr)
        assume "\<not> s < f"
        then have "f = s" using sf by simp
        then have "t < xs ! s" using above[of s] cross se by simp
        then show False using lo by simp
      qed
      have lt: "xs ! m < t" using below[of l] fs cross ml by simp
      have mlen: "m < length xs" using ml le e by simp
      have elm: "elem xs m = Some (xs ! m)" using mlen len by (simp add: elem_Some)
      have ne: "xs ! m \<noteq> t" "xs ! m \<le> t" using lt by auto
      have res: "find_floor_loop xs t f l = Some m"
        using False elm lt ne mid by (subst find_floor_loop.simps) (simp add: m_def[symmetric])
      have b: "\<forall>i. m < i \<and> i \<le> e \<longrightarrow> t < xs ! i" using above ml by simp
      have c: "\<forall>i. s \<le> i \<and> i < m \<longrightarrow> xs ! i < t"
      proof (intro allI impI)
        fix i assume "s \<le> i \<and> i < m"
        then have "s \<le> i" "i < f" using ml cross by auto
        then show "xs ! i < t" by (rule below)
      qed
      have "s \<le> m" "m \<le> e" using fs cross ml le by auto
      then have "?Q m" using ne b c by simp
      with res show ?thesis by blast
    qed
  qed
qed


lemma find_ceil_walk_correct:
  assumes "length xs \<le> max_size" "l < length xs" "xs ! m = t"
  shows "m \<le> l \<Longrightarrow> \<exists>r. find_ceil_walk xs t l m = Some r \<and> m \<le> r \<and> r \<le> l \<and> xs ! r = t
            \<and> (r = l \<or> xs ! (r + 1) \<noteq> t)"
  using assms
proof (induction xs t l m rule: find_ceil_walk.induct)
  case (1 xs t l m)
  show ?case
  proof (cases "m < l")
    case False
    with "1.prems" show ?thesis
      by (subst find_ceil_walk.simps) simp
  next
    case True
    then have m1: "sz_add m 1 = m + 1" "sz_sub (m + 1) 1 = m" "m + 1 < length xs"
      using "1.prems" by (auto simp: sz_sub_def sz_add_def max_size_def)
    then have el: "elem xs (sz_add m 1) = Some (xs ! (m + 1))"
      using "1.prems" by (simp add: elem_Some)
    show ?thesis
    proof (cases "xs ! (m + 1) = t")
      case neq: False
      with True el m1 "1.prems" show ?thesis
        by (subst find_ceil_walk.simps) simp
    next
      case eq: True
      have "\<exists>r. find_ceil_walk xs t l (sz_add m 1) = Some r \<and> sz_add m 1 \<le> r \<and> r \<le> l
             \<and> xs ! r = t \<and> (r = l \<or> xs ! (r + 1) \<noteq> t)"
        using "1.IH"[OF True el] eq True m1 "1.prems" by simp
      then obtain r where r: "find_ceil_walk xs t l (m + 1) = Some r" "m + 1 \<le> r" "r \<le> l"
          "xs ! r = t" "r = l \<or> xs ! (r + 1) \<noteq> t"
        using m1 by auto
      have "find_ceil_walk xs t l m = Some r"
        using True el eq m1 r by (subst find_ceil_walk.simps) simp
      with r show ?thesis by auto
    qed
  qed
qed

text \<open>
  The mirror image for \<open>find_ceil\<close>: the last position of \<open>t\<close> if the range holds \<open>t\<close>,
  and the first position of a greater element otherwise.
\<close>

lemma find_ceil_loop_correct:
  fixes xs :: "'a::linorder list"
  assumes len: "length xs \<le> max_size" and e: "e < length xs" and se: "s \<le> e"
    and srt: "\<And>i j. s \<le> i \<Longrightarrow> i \<le> j \<Longrightarrow> j \<le> e \<Longrightarrow> xs ! i \<le> xs ! j"
    and lo: "xs ! s \<le> t" and hi: "t \<le> xs ! e"
  shows "s \<le> f \<Longrightarrow> l \<le> e \<Longrightarrow> f \<le> l + 1
      \<Longrightarrow> (\<And>i. s \<le> i \<Longrightarrow> i < f \<Longrightarrow> xs ! i < t)
      \<Longrightarrow> (\<And>i. l < i \<Longrightarrow> i \<le> e \<Longrightarrow> t < xs ! i)
      \<Longrightarrow> \<exists>r. find_ceil_loop xs t f l = Some r \<and> s \<le> r \<and> r \<le> e \<and> t \<le> xs ! r
            \<and> (\<forall>i. r < i \<and> i \<le> e \<longrightarrow> t < xs ! i)
            \<and> (\<forall>i. s \<le> i \<and> i < r \<longrightarrow> (if xs ! r = t then xs ! i \<le> t else xs ! i < t))"
proof (induction "Suc l - f" arbitrary: f l rule: less_induct)
  case less
  let ?Q = "\<lambda>r. s \<le> r \<and> r \<le> e \<and> t \<le> xs ! r
            \<and> (\<forall>i. r < i \<and> i \<le> e \<longrightarrow> t < xs ! i)
            \<and> (\<forall>i. s \<le> i \<and> i < r \<longrightarrow> (if xs ! r = t then xs ! i \<le> t else xs ! i < t))"
  note sf = \<open>s \<le> f\<close> and le = \<open>l \<le> e\<close> and fl = \<open>f \<le> l + 1\<close>
  have below: "xs ! i < t" if "s \<le> i" "i < f" for i using less.prems(4) that .
  have above: "t < xs ! i" if "l < i" "i \<le> e" for i using less.prems(5) that .
  have bnd: "f \<le> max_size" "l < max_size" "e < max_size"
    using sf le fl len e by auto
  have mid: "sz_add f l div 2 = (f + l) div 2"
    using bnd by (simp add: sz_add_def max_size_def)
  define m where "m = (f + l) div 2"
  show ?case
  proof (cases "f < l")
    case True
    then have mb: "f \<le> m" "m < l" by (auto simp: m_def)
    then have ml: "m < length xs" using le e by simp
    have ll: "l < length xs" using le e by simp
    have elm: "elem xs m = Some (xs ! m)" using ml len by (simp add: elem_Some)
    consider (eq) "xs ! m = t" | (lt) "xs ! m < t" | (gt) "t < xs ! m"
      using less_linear by blast
    then show ?thesis
    proof cases
      case eq
      obtain r where r: "find_ceil_walk xs t l m = Some r" "m \<le> r" "r \<le> l" "xs ! r = t"
        "r = l \<or> xs ! (r + 1) \<noteq> t"
        using find_ceil_walk_correct[OF len ll eq] mb by force
      have res: "find_ceil_loop xs t f l = Some r"
        using True elm eq r(1) mid by (subst find_ceil_loop.simps) (simp add: m_def)
      have after: "t < xs ! i" if "r < i" "i \<le> e" for i
      proof (cases "l < i")
        case True
        then show ?thesis using above that by simp
      next
        case False
        then have rl: "r \<noteq> l" using that by simp
        then have "xs ! (r + 1) \<noteq> t" using r(5) by simp
        moreover have "xs ! r \<le> xs ! (r + 1)"
          using srt[of r "r + 1"] that r mb sf le by simp
        ultimately have "t < xs ! (r + 1)" using r(4) by simp
        moreover have "xs ! (r + 1) \<le> xs ! i"
          using srt[of "r + 1" i] that r mb sf le by simp
        ultimately show ?thesis by (rule less_le_trans)
      qed
      have before: "xs ! i \<le> t" if "s \<le> i" "i < r" for i
        using srt[of i r] that r le by simp
      have "?Q r" using r mb sf le before after by simp
      with res show ?thesis by blast
    next
      case lt
      then have ne: "xs ! m \<noteq> t" by simp
      have res: "find_ceil_loop xs t f l = find_ceil_loop xs t (m + 1) l"
        using True elm lt ne mid bnd mb
        by (subst find_ceil_loop.simps) (simp add: m_def[symmetric] sz_add_def max_size_def)
      have inv: "xs ! i < t" if "s \<le> i" "i < m + 1" for i
      proof -
        have "xs ! i \<le> xs ! m" using srt[of i m] that mb sf le by simp
        then show ?thesis using lt by (rule le_less_trans)
      qed
      have "\<exists>r. find_ceil_loop xs t (m + 1) l = Some r \<and> ?Q r"
      proof (rule less.hyps)
        show "Suc l - (m + 1) < Suc l - f" using mb by simp
        show "s \<le> m + 1" using mb sf by simp
        show "l \<le> e" by fact
        show "m + 1 \<le> l + 1" using mb by simp
        show "xs ! i < t" if "s \<le> i" "i < m + 1" for i using inv that .
        show "t < xs ! i" if "l < i" "i \<le> e" for i using above that .
      qed
      then show ?thesis using res by simp
    next
      case gt
      have m0: "m \<noteq> 0"
      proof
        assume "m = 0"
        then have "f = 0" "s = 0" using mb sf by auto
        then show False using lo gt \<open>m = 0\<close> by simp
      qed
      have ne: "xs ! m \<noteq> t" "\<not> xs ! m < t" using gt by auto
      have res: "find_ceil_loop xs t f l = find_ceil_loop xs t f (m - 1)"
        using True elm ne mid m0
        by (subst find_ceil_loop.simps) (auto simp: m_def[symmetric] sz_sub_def)
      have inv: "t < xs ! i" if "m - 1 < i" "i \<le> e" for i
      proof -
        have "m \<le> i" using that m0 by simp
        then have "xs ! m \<le> xs ! i" using srt[of m i] that mb sf by simp
        with gt show ?thesis by (rule less_le_trans)
      qed
      have "\<exists>r. find_ceil_loop xs t f (m - 1) = Some r \<and> ?Q r"
      proof (rule less.hyps)
        show "Suc (m - 1) - f < Suc l - f" using mb m0 by simp
        show "s \<le> f" by fact
        show "m - 1 \<le> e" using mb le by simp
        show "f \<le> m - 1 + 1" using mb m0 by simp
        show "xs ! i < t" if "s \<le> i" "i < f" for i using below that .
        show "t < xs ! i" if "m - 1 < i" "i \<le> e" for i using inv that .
      qed
      then show ?thesis using res by simp
    qed
  next
    case False
    then consider (same) "f = l" | (cross) "f = l + 1" using fl by linarith
    then show ?thesis
    proof cases
      case same
      then have mf: "m = f" by (simp add: m_def)
      have ml: "m < length xs" using mf same le e by simp
      have elm: "elem xs m = Some (xs ! m)" using ml len by (simp add: elem_Some)
      have sm: "s \<le> m" "m \<le> e" using mf same sf le by auto
      have bel: "\<forall>i. s \<le> i \<and> i < m \<longrightarrow> xs ! i < t" using below mf by simp
      have abv: "\<forall>i. m < i \<and> i \<le> e \<longrightarrow> t < xs ! i" using above mf same by simp
      consider (eq) "xs ! m = t" | (lt) "xs ! m < t" | (gt) "t < xs ! m"
        using less_linear by blast
      then show ?thesis
      proof cases
        case eq
        have res: "find_ceil_loop xs t f l = Some m"
          using False elm eq mid by (subst find_ceil_loop.simps) (simp add: m_def[symmetric])
        have "\<forall>i. s \<le> i \<and> i < m \<longrightarrow> xs ! i \<le> t" using bel by (simp add: less_imp_le)
        then have "?Q m" using eq sm abv by simp
        with res show ?thesis by blast
      next
        case gt
        then have ne: "xs ! m \<noteq> t" "t \<le> xs ! m" by auto
        have res: "find_ceil_loop xs t f l = Some m"
          using False elm gt ne mid by (subst find_ceil_loop.simps) (simp add: m_def[symmetric])
        have "?Q m" using ne sm bel abv by simp
        with res show ?thesis by blast
      next
        case lt
        have me: "m < e"
        proof (rule ccontr)
          assume "\<not> m < e"
          then have "m = e" using sm by simp
          then show False using hi lt by simp
        qed
        have ne: "xs ! m \<noteq> t" "\<not> t < xs ! m" using lt by auto
        have res: "find_ceil_loop xs t f l = Some (m + 1)"
          using False elm ne mid me bnd
          by (subst find_ceil_loop.simps) (auto simp: m_def[symmetric] sz_add_def max_size_def)
        have a: "t < xs ! (m + 1)" using abv me by simp
        have b: "\<forall>i. s \<le> i \<and> i < m + 1 \<longrightarrow> xs ! i < t"
        proof (intro allI impI)
          fix i assume i: "s \<le> i \<and> i < m + 1"
          show "xs ! i < t"
          proof (cases "i = m")
            case True then show ?thesis using lt by simp
          next
            case False
            then have "i < m" using i by linarith
            then show ?thesis using bel i by simp
          qed
        qed
        have c: "\<forall>i. m + 1 < i \<and> i \<le> e \<longrightarrow> t < xs ! i"
        proof (intro allI impI)
          fix i assume "m + 1 < i \<and> i \<le> e"
          then have "m < i \<and> i \<le> e" by linarith
          then show "t < xs ! i" using abv by blast
        qed
        have d: "xs ! (m + 1) \<noteq> t" "t \<le> xs ! (m + 1)" using a by auto
        have "s \<le> m + 1" "m + 1 \<le> e" using me sm by auto
        then have "?Q (m + 1)" using b c d by simp
        with res show ?thesis by blast
      qed
    next
      case cross
      then have ml: "m = l" by (simp add: m_def)
      have fs: "s < f"
      proof (rule ccontr)
        assume "\<not> s < f"
        then have "f = s" using sf by simp
        then have "t < xs ! s" using above[of s] cross se by simp
        then show False using lo by simp
      qed
      have lt: "xs ! m < t" using below[of l] fs cross ml by simp
      have mlen: "m < length xs" using ml le e by simp
      have elm: "elem xs m = Some (xs ! m)" using mlen len by (simp add: elem_Some)
      have ne: "xs ! m \<noteq> t" "\<not> t < xs ! m" using lt by auto
      have me: "m < e"
      proof (rule ccontr)
        assume "\<not> m < e"
        then have "m = e" using ml le by simp
        then show False using hi lt by simp
      qed
      have res: "find_ceil_loop xs t f l = Some (m + 1)"
        using False elm ne mid me bnd
        by (subst find_ceil_loop.simps) (auto simp: m_def[symmetric] sz_add_def max_size_def)
      have a: "t < xs ! (m + 1)" using above[of "m + 1"] ml me by simp
      have b: "\<forall>i. s \<le> i \<and> i < m + 1 \<longrightarrow> xs ! i < t"
      proof (intro allI impI)
        fix i assume "s \<le> i \<and> i < m + 1"
        then have "s \<le> i" "i < f" using ml cross by auto
        then show "xs ! i < t" by (rule below)
      qed
      have c: "\<forall>i. m + 1 < i \<and> i \<le> e \<longrightarrow> t < xs ! i"
      proof (intro allI impI)
        fix i assume "m + 1 < i \<and> i \<le> e"
        then have "l < i" "i \<le> e" using ml by auto
        then show "t < xs ! i" by (rule above)
      qed
      have d: "xs ! (m + 1) \<noteq> t" "t \<le> xs ! (m + 1)" using a by auto
      have "s \<le> m + 1" "m + 1 \<le> e" using me fs ml cross by auto
      then have "?Q (m + 1)" using b c d by simp
      with res show ?thesis by blast
    qed
  qed
qed

text \<open>
  \<open>find_floor\<close> and \<open>find_ceil\<close> of a container that is not corrupted, on a range of the
  storage that is sorted. For \<open>find_ceil\<close> the range starts at 0, since its first test
  reads \<open>_storage[0]\<close>.
\<close>

lemma find_floor_sorted_range:
  fixes c :: "'a::linorder sorted_vector"
  assumes nc: "\<not> is_corrupted c" and len: "length (storage c) \<le> max_size"
    and e: "e < length (storage c)" and se: "s \<le> e"
    and srt: "\<And>i j. s \<le> i \<Longrightarrow> i \<le> j \<Longrightarrow> j \<le> e \<Longrightarrow> storage c ! i \<le> storage c ! j"
  shows "\<exists>r. find_floor c t s e = Some r \<and>
      (if t < storage c ! s then r = SIZE_MAX
       else s \<le> r \<and> r \<le> e \<and> storage c ! r \<le> t
            \<and> (\<forall>i. s \<le> i \<and> i < r \<longrightarrow> storage c ! i < t)
            \<and> (\<forall>i. r < i \<and> i \<le> e \<longrightarrow>
                  (if storage c ! r = t then t \<le> storage c ! i else t < storage c ! i)))"
proof -
  let ?xs = "storage c"
  have ne: "?xs \<noteq> []" using e by auto
  have eS: "e \<noteq> SIZE_MAX" using e len by (auto simp: SIZE_MAX_def max_size_def)
  have els: "elem ?xs s = Some (?xs ! s)" "elem ?xs e = Some (?xs ! e)"
    using e se len by (simp_all add: elem_Some)
  have unf: "find_floor c t s e =
      (if t < ?xs ! s then Some SIZE_MAX
       else if ?xs ! e < t then Some e else find_floor_loop ?xs t s e)"
    using ne eS nc els by (simp add: find_floor_def)
  show ?thesis
  proof (cases "t < ?xs ! s")
    case True
    then show ?thesis using unf by simp
  next
    case lo: False
    show ?thesis
    proof (cases "?xs ! e < t")
      case True
      have a: "\<forall>i. s \<le> i \<and> i < e \<longrightarrow> ?xs ! i < t"
      proof (intro allI impI)
        fix i assume i: "s \<le> i \<and> i < e"
        then have "?xs ! i \<le> ?xs ! e" using srt[of i e] by simp
        then show "?xs ! i < t" using True by (rule le_less_trans)
      qed
      have b: "?xs ! e \<le> t" using True by simp
      have c: "\<forall>i. e < i \<and> i \<le> e \<longrightarrow>
                  (if ?xs ! e = t then t \<le> ?xs ! i else t < ?xs ! i)" by auto
      have "find_floor c t s e = Some e" using unf lo True by simp
      then show ?thesis using lo a b c se by simp
    next
      case hi: False
      have "\<exists>r. find_floor_loop ?xs t s e = Some r \<and> s \<le> r \<and> r \<le> e \<and> ?xs ! r \<le> t
            \<and> (\<forall>i. s \<le> i \<and> i < r \<longrightarrow> ?xs ! i < t)
            \<and> (\<forall>i. r < i \<and> i \<le> e \<longrightarrow> (if ?xs ! r = t then t \<le> ?xs ! i else t < ?xs ! i))"
      proof (rule find_floor_loop_correct[OF len e se])
        show "?xs ! i \<le> ?xs ! j" if "s \<le> i" "i \<le> j" "j \<le> e" for i j using srt that .
        show "?xs ! s \<le> t" using lo by simp
        show "t \<le> ?xs ! e" using hi by simp
        show "s \<le> s" "e \<le> e" "s \<le> e + 1" using se by simp_all
        show "?xs ! i < t" if "s \<le> i" "i < s" for i using that by simp
        show "t < ?xs ! i" if "e < i" "i \<le> e" for i using that by simp
      qed
      then show ?thesis using unf lo hi by simp
    qed
  qed
qed

lemma find_ceil_sorted_range:
  fixes c :: "'a::linorder sorted_vector"
  assumes nc: "\<not> is_corrupted c" and len: "length (storage c) \<le> max_size"
    and e: "e < length (storage c)"
    and srt: "\<And>i j. i \<le> j \<Longrightarrow> j \<le> e \<Longrightarrow> storage c ! i \<le> storage c ! j"
  shows "\<exists>r. find_ceil c t 0 e = Some r \<and>
      (if storage c ! e < t then r = SIZE_MAX
       else r \<le> e \<and> t \<le> storage c ! r
            \<and> (\<forall>i. r < i \<and> i \<le> e \<longrightarrow> t < storage c ! i)
            \<and> (\<forall>i. i < r \<longrightarrow>
                  (if storage c ! r = t then storage c ! i \<le> t else storage c ! i < t)))"
proof -
  let ?xs = "storage c"
  have ne: "?xs \<noteq> []" using e by auto
  have eS: "e \<noteq> SIZE_MAX" using e len by (auto simp: SIZE_MAX_def max_size_def)
  have els: "elem ?xs 0 = Some (?xs ! 0)" "elem ?xs e = Some (?xs ! e)"
    using e len by (auto simp: elem_def)
  have unf: "find_ceil c t 0 e =
      (if t < ?xs ! 0 then Some 0
       else if ?xs ! e < t then Some SIZE_MAX else find_ceil_loop ?xs t 0 e)"
    using ne eS nc els by (simp add: find_ceil_def)
  have s0e: "?xs ! 0 \<le> ?xs ! e" using srt[of 0 e] by simp
  show ?thesis
  proof (cases "t < ?xs ! 0")
    case True
    have a: "\<forall>i. 0 < i \<and> i \<le> e \<longrightarrow> t < ?xs ! i"
    proof (intro allI impI)
      fix i assume i: "0 < i \<and> i \<le> e"
      then have "?xs ! 0 \<le> ?xs ! i" using srt[of 0 i] by simp
      with True show "t < ?xs ! i" by (rule less_le_trans)
    qed
    have b: "\<not> ?xs ! e < t" "t \<le> ?xs ! 0" using True s0e by auto
    show ?thesis using unf True a b by simp
  next
    case lo: False
    show ?thesis
    proof (cases "?xs ! e < t")
      case True
      then show ?thesis using unf lo by simp
    next
      case hi: False
      have "\<exists>r. find_ceil_loop ?xs t 0 e = Some r \<and> 0 \<le> r \<and> r \<le> e \<and> t \<le> ?xs ! r
            \<and> (\<forall>i. r < i \<and> i \<le> e \<longrightarrow> t < ?xs ! i)
            \<and> (\<forall>i. 0 \<le> i \<and> i < r \<longrightarrow> (if ?xs ! r = t then ?xs ! i \<le> t else ?xs ! i < t))"
      proof (rule find_ceil_loop_correct[OF len e])
        show "0 \<le> e" by simp
        show "?xs ! i \<le> ?xs ! j" if "0 \<le> i" "i \<le> j" "j \<le> e" for i j using srt that by simp
        show "?xs ! 0 \<le> t" using lo by simp
        show "t \<le> ?xs ! e" using hi by simp
        show "(0::nat) \<le> 0" "e \<le> e" "0 \<le> e + 1" by simp_all
        show "?xs ! i < t" if "0 \<le> i" "i < 0" for i using that by simp
        show "t < ?xs ! i" if "e < i" "i \<le> e" for i using that by simp
      qed
      then show ?thesis using unf lo hi by simp
    qed
  qed
qed

lemma find_floor_default_range:
  "storage c \<noteq> [] \<Longrightarrow> length (storage c) \<le> max_size \<Longrightarrow>
     find_floor c t s SIZE_MAX = find_floor c t s (length (storage c) - 1)"
  by (cases "storage c") (auto simp: find_floor_def Let_def sz_sub_def SIZE_MAX_def max_size_def)

lemma find_ceil_default_range:
  "storage c \<noteq> [] \<Longrightarrow> length (storage c) \<le> max_size \<Longrightarrow>
     find_ceil c t s SIZE_MAX = find_ceil c t s (length (storage c) - 1)"
  by (cases "storage c") (auto simp: find_ceil_def Let_def sz_sub_def SIZE_MAX_def max_size_def)


lemma set_take_nth: "x \<in> set (take r xs) \<Longrightarrow> \<exists>i<r. i < length xs \<and> xs ! i = x"
  by (auto simp: in_set_conv_nth)

lemma set_drop_nth: "x \<in> set (drop r xs) \<Longrightarrow> \<exists>i\<ge>r. i < length xs \<and> xs ! i = x"
proof -
  assume "x \<in> set (drop r xs)"
  then obtain j where "j < length xs - r" "drop r xs ! j = x"
    by (auto simp: in_set_conv_nth)
  then have "r + j < length xs \<and> xs ! (r + j) = x \<and> r \<le> r + j" by simp
  then show ?thesis by blast
qed

lemma find_floor_sorted:
  fixes c :: "'a::linorder sorted_vector"
  assumes srt: "sorted (storage c)" and nc: "\<not> is_corrupted c"
    and len: "length (storage c) \<le> max_size" and ne: "storage c \<noteq> []"
  shows "\<exists>r. find_floor c t 0 SIZE_MAX = Some r \<and>
      (if t < storage c ! 0 then r = SIZE_MAX
       else r < length (storage c) \<and> storage c ! r \<le> t
            \<and> (\<forall>i. i < r \<longrightarrow> storage c ! i < t)
            \<and> (\<forall>i. r < i \<and> i < length (storage c) \<longrightarrow>
                  (if storage c ! r = t then t \<le> storage c ! i else t < storage c ! i)))"
proof -
  let ?xs = "storage c"
  let ?e = "length ?xs - 1"
  have e: "?e < length ?xs" using ne by simp
  have mono: "?xs ! i \<le> ?xs ! j" if "0 \<le> i" "i \<le> j" "j \<le> ?e" for i j
    using srt that e by (simp add: sorted_nth_mono)
  have "\<exists>r. find_floor c t 0 ?e = Some r \<and>
      (if t < ?xs ! 0 then r = SIZE_MAX
       else 0 \<le> r \<and> r \<le> ?e \<and> ?xs ! r \<le> t
            \<and> (\<forall>i. 0 \<le> i \<and> i < r \<longrightarrow> ?xs ! i < t)
            \<and> (\<forall>i. r < i \<and> i \<le> ?e \<longrightarrow> (if ?xs ! r = t then t \<le> ?xs ! i else t < ?xs ! i)))"
  proof (rule find_floor_sorted_range[OF nc len e])
    show "0 \<le> ?e" by simp
    show "?xs ! i \<le> ?xs ! j" if "0 \<le> i" "i \<le> j" "j \<le> ?e" for i j using mono that .
  qed
  then obtain r where r: "find_floor c t 0 ?e = Some r"
      "if t < ?xs ! 0 then r = SIZE_MAX
       else 0 \<le> r \<and> r \<le> ?e \<and> ?xs ! r \<le> t
            \<and> (\<forall>i. 0 \<le> i \<and> i < r \<longrightarrow> ?xs ! i < t)
            \<and> (\<forall>i. r < i \<and> i \<le> ?e \<longrightarrow> (if ?xs ! r = t then t \<le> ?xs ! i else t < ?xs ! i))"
    by blast
  have d: "find_floor c t 0 SIZE_MAX = Some r"
    using r(1) find_floor_default_range[OF ne len] by simp
  show ?thesis
  proof (cases "t < ?xs ! 0")
    case True
    then show ?thesis using d r(2) by simp
  next
    case False
    then have q: "r \<le> ?e" "?xs ! r \<le> t" "\<forall>i. 0 \<le> i \<and> i < r \<longrightarrow> ?xs ! i < t"
      "\<forall>i. r < i \<and> i \<le> ?e \<longrightarrow> (if ?xs ! r = t then t \<le> ?xs ! i else t < ?xs ! i)"
      using r(2) by simp_all
    have a: "r < length ?xs" using q(1) e by simp
    have b: "\<forall>i. i < r \<longrightarrow> ?xs ! i < t" using q(3) by simp
    have c: "\<forall>i. r < i \<and> i < length ?xs \<longrightarrow>
                (if ?xs ! r = t then t \<le> ?xs ! i else t < ?xs ! i)"
    proof (intro allI impI)
      fix i assume "r < i \<and> i < length ?xs"
      then have "r < i \<and> i \<le> ?e" by linarith
      then show "if ?xs ! r = t then t \<le> ?xs ! i else t < ?xs ! i" using q(4) by blast
    qed
    show ?thesis using d False a q(2) b c by simp
  qed
qed

lemma find_ceil_sorted:
  fixes c :: "'a::linorder sorted_vector"
  assumes srt: "sorted (storage c)" and nc: "\<not> is_corrupted c"
    and len: "length (storage c) \<le> max_size" and ne: "storage c \<noteq> []"
  shows "\<exists>r. find_ceil c t 0 SIZE_MAX = Some r \<and>
      (if storage c ! (length (storage c) - 1) < t then r = SIZE_MAX
       else r < length (storage c) \<and> t \<le> storage c ! r
            \<and> (\<forall>i. r < i \<and> i < length (storage c) \<longrightarrow> t < storage c ! i)
            \<and> (\<forall>i. i < r \<longrightarrow>
                  (if storage c ! r = t then storage c ! i \<le> t else storage c ! i < t)))"
proof -
  let ?xs = "storage c"
  let ?e = "length ?xs - 1"
  have e: "?e < length ?xs" using ne by simp
  have mono: "?xs ! i \<le> ?xs ! j" if "i \<le> j" "j \<le> ?e" for i j
    using srt that e by (simp add: sorted_nth_mono)
  have "\<exists>r. find_ceil c t 0 ?e = Some r \<and>
      (if ?xs ! ?e < t then r = SIZE_MAX
       else r \<le> ?e \<and> t \<le> ?xs ! r
            \<and> (\<forall>i. r < i \<and> i \<le> ?e \<longrightarrow> t < ?xs ! i)
            \<and> (\<forall>i. i < r \<longrightarrow> (if ?xs ! r = t then ?xs ! i \<le> t else ?xs ! i < t)))"
  proof (rule find_ceil_sorted_range[OF nc len e])
    show "?xs ! i \<le> ?xs ! j" if "i \<le> j" "j \<le> ?e" for i j using mono that .
  qed
  then obtain r where r: "find_ceil c t 0 ?e = Some r"
      "if ?xs ! ?e < t then r = SIZE_MAX
       else r \<le> ?e \<and> t \<le> ?xs ! r
            \<and> (\<forall>i. r < i \<and> i \<le> ?e \<longrightarrow> t < ?xs ! i)
            \<and> (\<forall>i. i < r \<longrightarrow> (if ?xs ! r = t then ?xs ! i \<le> t else ?xs ! i < t))"
    by blast
  have d: "find_ceil c t 0 SIZE_MAX = Some r"
    using r(1) find_ceil_default_range[OF ne len] by simp
  show ?thesis
  proof (cases "?xs ! ?e < t")
    case True
    then show ?thesis using d r(2) by simp
  next
    case False
    then have q: "r \<le> ?e" "t \<le> ?xs ! r" "\<forall>i. r < i \<and> i \<le> ?e \<longrightarrow> t < ?xs ! i"
      "\<forall>i. i < r \<longrightarrow> (if ?xs ! r = t then ?xs ! i \<le> t else ?xs ! i < t)"
      using r(2) by simp_all
    have a: "r < length ?xs" using q(1) e by simp
    have c: "\<forall>i. r < i \<and> i < length ?xs \<longrightarrow> t < ?xs ! i"
    proof (intro allI impI)
      fix i assume "r < i \<and> i < length ?xs"
      then have "r < i \<and> i \<le> ?e" by linarith
      then show "t < ?xs ! i" using q(3) by blast
    qed
    show ?thesis using d False a q(2) q(4) c by simp
  qed
qed


lemma bounded_not_sentinel: "r < length xs \<Longrightarrow> length xs \<le> max_size \<Longrightarrow> r \<noteq> SIZE_MAX"
  by (auto simp: SIZE_MAX_def max_size_def)

lemma find_floor_law:
  fixes c :: "'a::linorder sorted_vector"
  assumes srt: "sorted (storage c)" and nc: "\<not> is_corrupted c"
    and len: "length (storage c) \<le> max_size"
  shows "\<exists>r. find_floor c t 0 SIZE_MAX = Some r
            \<and> (r = SIZE_MAX \<longleftrightarrow> (\<forall>x\<in>set (storage c). t < x))
            \<and> (r \<noteq> SIZE_MAX \<longrightarrow> r < length (storage c)
                 \<and> (if t \<in> set (storage c)
                    then storage c ! r = t \<and> t \<notin> set (take r (storage c))
                    else storage c ! r < t \<and> (\<forall>x\<in>set (drop (Suc r) (storage c)). t < x)))"
proof (cases "storage c = []")
  case True
  then show ?thesis using value_searches_empty(7)[OF True] by simp
next
  case ne: False
  let ?xs = "storage c"
  obtain r where r: "find_floor c t 0 SIZE_MAX = Some r"
    "if t < ?xs ! 0 then r = SIZE_MAX
       else r < length ?xs \<and> ?xs ! r \<le> t
            \<and> (\<forall>i. i < r \<longrightarrow> ?xs ! i < t)
            \<and> (\<forall>i. r < i \<and> i < length ?xs \<longrightarrow>
                  (if ?xs ! r = t then t \<le> ?xs ! i else t < ?xs ! i))"
    using find_floor_sorted[OF srt nc len ne] by blast
  show ?thesis
  proof (cases "t < ?xs ! 0")
    case True
    have "t < x" if "x \<in> set ?xs" for x
    proof -
      from that obtain k where k: "k < length ?xs" "?xs ! k = x"
        unfolding in_set_conv_nth by blast
      have "?xs ! 0 \<le> ?xs ! k" using sorted_nth_mono[OF srt, of 0 k] k(1) by simp
      with True have "t < ?xs ! k" by (rule less_le_trans)
      then show ?thesis using k by simp
    qed
    then have "\<forall>x\<in>set ?xs. t < x" by blast
    moreover have "r = SIZE_MAX" using r(2) True by simp
    ultimately show ?thesis using r(1) by simp
  next
    case False
    then have q: "r < length ?xs" "?xs ! r \<le> t" "\<forall>i. i < r \<longrightarrow> ?xs ! i < t"
      "\<forall>i. r < i \<and> i < length ?xs \<longrightarrow> (if ?xs ! r = t then t \<le> ?xs ! i else t < ?xs ! i)"
      using r(2) by simp_all
    have nS: "r \<noteq> SIZE_MAX" using q(1) len by (rule bounded_not_sentinel)
    have nall: "\<not> (\<forall>x\<in>set ?xs. t < x)"
    proof
      assume "\<forall>x\<in>set ?xs. t < x"
      moreover have "?xs ! 0 \<in> set ?xs" using ne by simp
      ultimately show False using False by blast
    qed
    have main: "if t \<in> set ?xs
                    then ?xs ! r = t \<and> t \<notin> set (take r ?xs)
                    else ?xs ! r < t \<and> (\<forall>x\<in>set (drop (Suc r) ?xs). t < x)"
    proof (cases "t \<in> set ?xs")
      case True
      then obtain k where k: "k < length ?xs" "?xs ! k = t" by (auto simp: in_set_conv_nth)
      have eq: "?xs ! r = t"
      proof (rule ccontr)
        assume neq: "?xs ! r \<noteq> t"
        consider "k < r" | "k = r" | "r < k" by linarith
        then show False
        proof cases
          case 1 then show ?thesis using q(3) k by auto
        next
          case 2 then show ?thesis using neq k by simp
        next
          case 3
          then have "t < ?xs ! k" using q(4) neq k by auto
          then show ?thesis using k by simp
        qed
      qed
      have "t \<notin> set (take r ?xs)"
      proof
        assume "t \<in> set (take r ?xs)"
        then obtain i where "i < r" "?xs ! i = t" by (blast dest: set_take_nth)
        then show False using q(3) by auto
      qed
      with eq True show ?thesis by simp
    next
      case False
      have "?xs ! r \<in> set ?xs" using q(1) by simp
      then have neq: "?xs ! r \<noteq> t" using False by auto
      then have lt: "?xs ! r < t" using q(2) by simp
      have "t < x" if xin: "x \<in> set (drop (Suc r) ?xs)" for x
      proof -
        obtain i where i: "Suc r \<le> i" "i < length ?xs" "?xs ! i = x"
          using set_drop_nth[OF xin] by blast
        then have "r < i \<and> i < length ?xs" by simp
        then have "t < ?xs ! i" using q(4) neq by auto
        then show ?thesis using i by simp
      qed
      with lt False show ?thesis by simp
    qed
    show ?thesis by (rule exI[of _ r]) (use r(1) nS nall q(1) main in simp)
  qed
qed

lemma find_ceil_law:
  fixes c :: "'a::linorder sorted_vector"
  assumes srt: "sorted (storage c)" and nc: "\<not> is_corrupted c"
    and len: "length (storage c) \<le> max_size"
  shows "\<exists>r. find_ceil c t 0 SIZE_MAX = Some r
            \<and> (r = SIZE_MAX \<longleftrightarrow> (\<forall>x\<in>set (storage c). x < t))
            \<and> (r \<noteq> SIZE_MAX \<longrightarrow> r < length (storage c)
                 \<and> (if t \<in> set (storage c)
                    then storage c ! r = t \<and> t \<notin> set (drop (Suc r) (storage c))
                    else t < storage c ! r \<and> (\<forall>x\<in>set (take r (storage c)). x < t)))"
proof (cases "storage c = []")
  case True
  then show ?thesis using value_searches_empty(8)[OF True] by simp
next
  case ne: False
  let ?xs = "storage c"
  let ?e = "length ?xs - 1"
  have e: "?e < length ?xs" using ne by simp
  obtain r where r: "find_ceil c t 0 SIZE_MAX = Some r"
    "if ?xs ! ?e < t then r = SIZE_MAX
       else r < length ?xs \<and> t \<le> ?xs ! r
            \<and> (\<forall>i. r < i \<and> i < length ?xs \<longrightarrow> t < ?xs ! i)
            \<and> (\<forall>i. i < r \<longrightarrow> (if ?xs ! r = t then ?xs ! i \<le> t else ?xs ! i < t))"
    using find_ceil_sorted[OF srt nc len ne] by blast
  show ?thesis
  proof (cases "?xs ! ?e < t")
    case True
    have "x < t" if "x \<in> set ?xs" for x
    proof -
      from that obtain k where k: "k < length ?xs" "?xs ! k = x"
        unfolding in_set_conv_nth by blast
      have "?xs ! k \<le> ?xs ! ?e" using sorted_nth_mono[OF srt, of k ?e] k(1) e by simp
      then have "?xs ! k < t" using True by (rule le_less_trans)
      then show ?thesis using k by simp
    qed
    then have "\<forall>x\<in>set ?xs. x < t" by blast
    moreover have "r = SIZE_MAX" using r(2) True by simp
    ultimately show ?thesis using r(1) by simp
  next
    case False
    then have q: "r < length ?xs" "t \<le> ?xs ! r" "\<forall>i. r < i \<and> i < length ?xs \<longrightarrow> t < ?xs ! i"
      "\<forall>i. i < r \<longrightarrow> (if ?xs ! r = t then ?xs ! i \<le> t else ?xs ! i < t)"
      using r(2) by simp_all
    have nS: "r \<noteq> SIZE_MAX" using q(1) len by (rule bounded_not_sentinel)
    have nall: "\<not> (\<forall>x\<in>set ?xs. x < t)"
    proof
      assume "\<forall>x\<in>set ?xs. x < t"
      moreover have "?xs ! ?e \<in> set ?xs" using e by simp
      ultimately show False using False by blast
    qed
    have main: "if t \<in> set ?xs
                    then ?xs ! r = t \<and> t \<notin> set (drop (Suc r) ?xs)
                    else t < ?xs ! r \<and> (\<forall>x\<in>set (take r ?xs). x < t)"
    proof (cases "t \<in> set ?xs")
      case True
      then obtain k where k: "k < length ?xs" "?xs ! k = t" by (auto simp: in_set_conv_nth)
      have eq: "?xs ! r = t"
      proof (rule ccontr)
        assume neq: "?xs ! r \<noteq> t"
        consider "k < r" | "k = r" | "r < k" by linarith
        then show False
        proof cases
          case 1
          then have "?xs ! k < t" using q(4) neq by auto
          then show ?thesis using k by simp
        next
          case 2 then show ?thesis using neq k by simp
        next
          case 3 then show ?thesis using q(3) k by auto
        qed
      qed
      have "t \<notin> set (drop (Suc r) ?xs)"
      proof
        assume "t \<in> set (drop (Suc r) ?xs)"
        then obtain i where i: "Suc r \<le> i" "i < length ?xs" "?xs ! i = t"
          by (blast dest: set_drop_nth)
        then have "r < i \<and> i < length ?xs" by simp
        then have "t < ?xs ! i" using q(3) by blast
        then show False using i by simp
      qed
      with eq True show ?thesis by simp
    next
      case False
      have "?xs ! r \<in> set ?xs" using q(1) by simp
      then have neq: "?xs ! r \<noteq> t" using False by auto
      then have lt: "t < ?xs ! r" using q(2) by simp
      have "x < t" if xin: "x \<in> set (take r ?xs)" for x
      proof -
        obtain i where i: "i < r" "?xs ! i = x"
          using set_take_nth[OF xin] by blast
        then have "?xs ! i < t" using q(4) neq by auto
        then show ?thesis using i by simp
      qed
      with lt False show ?thesis by simp
    qed
    show ?thesis by (rule exI[of _ r]) (use r(1) nS nall q(1) main in simp)
  qed
qed


section \<open>The boundary laws of floor and ceiling\<close>

text \<open>
  Claim C3 as stated (\<open>find_floor\<close> returns the largest position whose value is at most
  \<open>t\<close>, \<open>find_ceil\<close> the smallest position whose value is at least \<open>t\<close>) fails where
  \<open>t\<close> occurs more than once: on the sorted container \<open>[1, 5, 5, 5, 9]\<close>, \<open>find_floor(5)\<close>
  is 1 although position 3 holds a value that is at most 5, and \<open>find_ceil(5)\<close> is 3
  although position 1 holds a value that is at least 5.
\<close>

theorem floor_ceil_duplicates_counterexample:
  "find_floor \<lparr>storage = [1, 5, 5, 5, 9 :: int], last_modified = SIZE_MAX, is_corrupted = False,
               flag_suspend_autorepair = False\<rparr> 5 0 SIZE_MAX = Some 1
   \<and> [1, 5, 5, 5, 9 :: int] ! 3 \<le> 5
   \<and> find_ceil \<lparr>storage = [1, 5, 5, 5, 9 :: int], last_modified = SIZE_MAX, is_corrupted = False,
               flag_suspend_autorepair = False\<rparr> 5 0 SIZE_MAX = Some 3
   \<and> [1, 5, 5, 5, 9 :: int] ! 1 \<ge> 5
   \<and> sorted [1, 5, 5, 5, 9 :: int]"
  by (simp add: find_floor_def find_ceil_def find_floor_loop.simps find_ceil_loop.simps
      find_floor_walk.simps find_ceil_walk.simps sz_defs)

text \<open>
  Claim C3, amended: on a sorted, not corrupted container and the full default range,
  \<open>find_floor(t)\<close> returns the not-found sentinel if and only if every element is greater
  than \<open>t\<close>; otherwise it returns the smallest position holding \<open>t\<close> if \<open>t\<close> occurs, and
  the largest position holding a value less than \<open>t\<close> if it does not. \<open>find_ceil(t)\<close>
  returns the sentinel if and only if every element is less than \<open>t\<close>; otherwise it
  returns the largest position holding \<open>t\<close> if \<open>t\<close> occurs, and the smallest position
  holding a value greater than \<open>t\<close> if it does not.
\<close>

theorem floor_ceil_boundary_laws:
  fixes c :: "'a::linorder sorted_vector"
  assumes "sorted (storage c)" and "\<not> is_corrupted c" and "length (storage c) \<le> max_size"
  shows "(\<exists>r. find_floor c t 0 SIZE_MAX = Some r
            \<and> (r = SIZE_MAX \<longleftrightarrow> (\<forall>x\<in>set (storage c). t < x))
            \<and> (r \<noteq> SIZE_MAX \<longrightarrow> r < length (storage c)
                 \<and> (if t \<in> set (storage c)
                    then storage c ! r = t \<and> t \<notin> set (take r (storage c))
                    else storage c ! r < t \<and> (\<forall>x\<in>set (drop (Suc r) (storage c)). t < x))))
       \<and> (\<exists>r. find_ceil c t 0 SIZE_MAX = Some r
            \<and> (r = SIZE_MAX \<longleftrightarrow> (\<forall>x\<in>set (storage c). x < t))
            \<and> (r \<noteq> SIZE_MAX \<longrightarrow> r < length (storage c)
                 \<and> (if t \<in> set (storage c)
                    then storage c ! r = t \<and> t \<notin> set (drop (Suc r) (storage c))
                    else t < storage c ! r \<and> (\<forall>x\<in>set (take r (storage c)). x < t))))"
  by (rule conjI[OF find_floor_law[OF assms] find_ceil_law[OF assms]])

theorem floor_ceil_boundary_laws_witness:
  "sorted [1, 5, 5, 5, 9 :: int] \<and> length [1, 5, 5, 5, 9 :: int] \<le> max_size
   \<and> find_floor \<lparr>storage = [1, 5, 5, 5, 9 :: int], last_modified = SIZE_MAX,
        is_corrupted = False, flag_suspend_autorepair = False\<rparr> 5 0 SIZE_MAX = Some 1
   \<and> find_ceil \<lparr>storage = [1, 5, 5, 5, 9 :: int], last_modified = SIZE_MAX,
        is_corrupted = False, flag_suspend_autorepair = False\<rparr> 5 0 SIZE_MAX = Some 3"
proof -
  let ?c = "\<lparr>storage = [1, 5, 5, 5, 9 :: int], last_modified = SIZE_MAX,
        is_corrupted = False, flag_suspend_autorepair = False\<rparr>"
  have h1: "sorted (storage ?c)" by simp
  have h2: "\<not> is_corrupted ?c" by simp
  have h3: "length (storage ?c) \<le> max_size" by (simp add: max_size_def)
  from floor_ceil_boundary_laws[OF h1 h2 h3, of 5]
  obtain rf rc where f: "find_floor ?c 5 0 SIZE_MAX = Some rf" "rf \<noteq> SIZE_MAX \<longrightarrow> storage ?c ! rf = 5 \<and> 5 \<notin> set (take rf (storage ?c))"
      "rf = SIZE_MAX \<longleftrightarrow> (\<forall>x\<in>set (storage ?c). 5 < x)"
    and c: "find_ceil ?c 5 0 SIZE_MAX = Some rc" "rc \<noteq> SIZE_MAX \<longrightarrow> storage ?c ! rc = 5 \<and> 5 \<notin> set (drop (Suc rc) (storage ?c))"
      "rc = SIZE_MAX \<longleftrightarrow> (\<forall>x\<in>set (storage ?c). x < 5)"
    by auto
  have "find_floor ?c 5 0 SIZE_MAX = Some 1" "find_ceil ?c 5 0 SIZE_MAX = Some 3"
    by (simp_all add: find_floor_def find_ceil_def find_floor_loop.simps find_ceil_loop.simps
      find_floor_walk.simps find_ceil_walk.simps sz_defs)
  then show ?thesis using f c h1 h3 by simp
qed

text \<open>
  Claim C8: on a sorted, not corrupted container, for a value \<open>t\<close> that does not occur,
  whenever \<open>find_floor(t)\<close> and \<open>find_ceil(t)\<close> over the full range are both positions,
  \<open>find_floor(t) + 1\<close> is \<open>find_ceil(t)\<close> (in \<open>size_t\<close> arithmetic and without wrap-around).
\<close>

theorem floor_succ_is_ceil:
  fixes c :: "'a::linorder sorted_vector"
  assumes srt: "sorted (storage c)" and nc: "\<not> is_corrupted c"
    and len: "length (storage c) \<le> max_size"
    and absent: "t \<notin> set (storage c)"
    and fl: "find_floor c t 0 SIZE_MAX = Some rf" and ce: "find_ceil c t 0 SIZE_MAX = Some rc"
    and rf: "rf \<noteq> SIZE_MAX" and rc: "rc \<noteq> SIZE_MAX"
  shows "sz_add rf 1 = rc \<and> rf + 1 = rc"
proof -
  let ?xs = "storage c"
  have ne: "?xs \<noteq> []"
  proof
    assume "?xs = []"
    then have "find_floor c t 0 SIZE_MAX = Some SIZE_MAX" by (rule value_searches_empty(7))
    then show False using fl rf by simp
  qed
  have F: "if t < ?xs ! 0 then rf = SIZE_MAX
       else rf < length ?xs \<and> ?xs ! rf \<le> t
            \<and> (\<forall>i. i < rf \<longrightarrow> ?xs ! i < t)
            \<and> (\<forall>i. rf < i \<and> i < length ?xs \<longrightarrow>
                  (if ?xs ! rf = t then t \<le> ?xs ! i else t < ?xs ! i))"
    using find_floor_sorted[OF srt nc len ne, of t] fl by auto
  have C: "if ?xs ! (length ?xs - 1) < t then rc = SIZE_MAX
       else rc < length ?xs \<and> t \<le> ?xs ! rc
            \<and> (\<forall>i. rc < i \<and> i < length ?xs \<longrightarrow> t < ?xs ! i)
            \<and> (\<forall>i. i < rc \<longrightarrow> (if ?xs ! rc = t then ?xs ! i \<le> t else ?xs ! i < t))"
    using find_ceil_sorted[OF srt nc len ne, of t] ce by auto
  have f: "rf < length ?xs" "?xs ! rf \<le> t" "\<forall>i. i < rf \<longrightarrow> ?xs ! i < t"
    "\<forall>i. rf < i \<and> i < length ?xs \<longrightarrow> (if ?xs ! rf = t then t \<le> ?xs ! i else t < ?xs ! i)"
    using F rf by (simp_all split: if_splits)
  have c: "rc < length ?xs" "t \<le> ?xs ! rc" "\<forall>i. rc < i \<and> i < length ?xs \<longrightarrow> t < ?xs ! i"
    "\<forall>i. i < rc \<longrightarrow> (if ?xs ! rc = t then ?xs ! i \<le> t else ?xs ! i < t)"
    using C rc by (simp_all split: if_splits)
  have nf: "?xs ! rf \<noteq> t" using absent f(1) by (metis nth_mem)
  have ncl: "?xs ! rc \<noteq> t" using absent c(1) by (metis nth_mem)
  have after: "\<forall>i. rf < i \<and> i < length ?xs \<longrightarrow> t < ?xs ! i" using f(4) nf by simp
  have before: "\<forall>i. i < rc \<longrightarrow> ?xs ! i < t" using c(4) ncl by simp
  have lt: "rf < rc"
  proof (rule ccontr)
    assume "\<not> rf < rc"
    then consider "rc < rf" | "rc = rf" by linarith
    then show False
    proof cases
      case 1
      then have "?xs ! rc < t" using f(3) by simp
      then show ?thesis using c(2) by simp
    next
      case 2
      then have "?xs ! rf = t" using f(2) c(2) by simp
      then show ?thesis using nf by simp
    qed
  qed
  have eq: "rf + 1 = rc"
  proof (rule ccontr)
    assume "rf + 1 \<noteq> rc"
    then have a: "rf + 1 < rc" using lt by simp
    then have "rf < rf + 1 \<and> rf + 1 < length ?xs" using c(1) by simp
    then have "t < ?xs ! (rf + 1)" using after by blast
    moreover have "?xs ! (rf + 1) < t" using before a by blast
    ultimately show False by simp
  qed
  have "sz_add rf 1 = rf + 1" using f(1) len by (simp add: sz_add_def max_size_def)
  then show ?thesis using eq by simp
qed

theorem floor_succ_is_ceil_witness:
  "sorted [1, 3 :: int] \<and> length [1, 3 :: int] \<le> max_size \<and> (2 :: int) \<notin> set [1, 3]
   \<and> find_floor \<lparr>storage = [1, 3 :: int], last_modified = SIZE_MAX,
        is_corrupted = False, flag_suspend_autorepair = False\<rparr> 2 0 SIZE_MAX = Some 0
   \<and> find_ceil \<lparr>storage = [1, 3 :: int], last_modified = SIZE_MAX,
        is_corrupted = False, flag_suspend_autorepair = False\<rparr> 2 0 SIZE_MAX = Some 1
   \<and> (0 :: nat) \<noteq> SIZE_MAX \<and> (1 :: nat) \<noteq> SIZE_MAX
   \<and> sz_add 0 1 = 1"
proof -
  let ?c = "\<lparr>storage = [1, 3 :: int], last_modified = SIZE_MAX,
        is_corrupted = False, flag_suspend_autorepair = False\<rparr>"
  have h1: "sorted (storage ?c)" by simp
  have h2: "\<not> is_corrupted ?c" by simp
  have h3: "length (storage ?c) \<le> max_size" by (simp add: max_size_def)
  have h4: "(2 :: int) \<notin> set (storage ?c)" by simp
  have h5: "find_floor ?c 2 0 SIZE_MAX = Some 0"
    by (simp add: find_floor_def find_floor_loop.simps find_floor_walk.simps sz_defs)
  have h6: "find_ceil ?c 2 0 SIZE_MAX = Some 1"
    by (simp add: find_ceil_def find_ceil_loop.simps find_ceil_walk.simps sz_defs)
  have h7: "(0 :: nat) \<noteq> SIZE_MAX" "(1 :: nat) \<noteq> SIZE_MAX" by (simp_all add: SIZE_MAX_def)
  from floor_succ_is_ceil[OF h1 h2 h3 h4 h5 h6 h7]
  have "sz_add 0 1 = 1" by simp
  then show ?thesis using h1 h3 h4 h5 h6 h7 by simp
qed

section \<open>Repair after a single mutation\<close>

lemma nth_remove:
  "i < length xs \<Longrightarrow> j < length xs - 1 \<Longrightarrow>
     (take i xs @ drop (Suc i) xs) ! j = (if j < i then xs ! j else xs ! Suc j)"
  by (simp add: nth_append min_def)

lemma length_remove: "i < length xs \<Longrightarrow> length (take i xs @ drop (Suc i) xs) = length xs - 1"
  by simp

lemma sorted_remove:
  assumes "sorted xs"
  shows "sorted (take i xs @ drop (Suc i) xs)"
proof -
  have "x \<le> y" if xin: "x \<in> set (take i xs)" and yin: "y \<in> set (drop (Suc i) xs)" for x y
  proof -
    obtain a where a: "a < i" "a < length xs" "xs ! a = x" using set_take_nth[OF xin] by blast
    obtain b where b: "Suc i \<le> b" "b < length xs" "xs ! b = y" using set_drop_nth[OF yin] by blast
    have "xs ! a \<le> xs ! b" using sorted_nth_mono[OF assms, of a b] a b by simp
    then show ?thesis using a b by simp
  qed
  then show ?thesis using assms by (simp add: sorted_append sorted_wrt_take sorted_wrt_drop)
qed

lemma sorted_insert_at:
  fixes zs :: "'a::linorder list"
  assumes srt: "sorted zs" and r: "r \<le> length zs"
    and lo: "\<And>j. j < r \<Longrightarrow> zs ! j \<le> v"
    and hi: "\<And>j. r \<le> j \<Longrightarrow> j < length zs \<Longrightarrow> v \<le> zs ! j"
  shows "sorted (take r zs @ v # drop r zs)"
proof -
  have a: "x \<le> v" if xin: "x \<in> set (take r zs)" for x
  proof -
    obtain j where "j < r" "zs ! j = x" using set_take_nth[OF xin] by blast
    then show ?thesis using lo by auto
  qed
  have b: "v \<le> y" if yin: "y \<in> set (drop r zs)" for y
  proof -
    obtain j where "r \<le> j" "j < length zs" "zs ! j = y" using set_drop_nth[OF yin] by blast
    then show ?thesis using hi by auto
  qed
  have c: "x \<le> y" if "x \<in> set (take r zs)" "y \<in> set (drop r zs)" for x y
    using a[OF that(1)] b[OF that(2)] by (rule order_trans)
  show ?thesis using srt a b c
    by (simp add: sorted_append sorted_wrt_take sorted_wrt_drop)
qed

lemma insert_then_assign:
  "r \<le> length zs \<Longrightarrow> (take r zs @ v # drop r zs)[r := v] = take r zs @ v # drop r zs"
  by (simp add: list_update_append)

lemma mset_relocate:
  assumes "i < length xs" "r \<le> length xs - 1"
  shows "mset (take r (take i xs @ drop (Suc i) xs) @ v # drop r (take i xs @ drop (Suc i) xs))
         = mset (xs[i := v])"
proof -
  let ?zs = "take i xs @ drop (Suc i) xs"
  have "mset (take r ?zs @ v # drop r ?zs) = mset (take r ?zs @ drop r ?zs) + {#v#}"
    by simp
  also have "\<dots> = mset ?zs + {#v#}" by (simp only: append_take_drop_id)
  also have "\<dots> = mset (take i xs @ v # drop (Suc i) xs)" by simp
  also have "\<dots> = mset (xs[i := v])" using assms(1) by (simp add: upd_conv_take_nth_drop)
  finally show ?thesis .
qed


lemma single_shift_right_eval:
  assumes "r \<noteq> i" "i < length (storage c)" "length (storage c) \<le> max_size"
    "r \<le> length (storage c) - 1"
  shows "single_shift_right c r i =
     Some (c\<lparr>storage := take r (take i (storage c) @ drop (Suc i) (storage c))
                @ storage c ! i # drop r (take i (storage c) @ drop (Suc i) (storage c))\<rparr>)"
proof -
  have "i \<noteq> SIZE_MAX" using assms by (auto simp: SIZE_MAX_def max_size_def)
  then show ?thesis using assms
    by (simp add: single_shift_right_def elem_def erase_at_def insert_at_def min_def)
qed

lemma single_shift_left_eval:
  assumes "r \<noteq> i" "i < length (storage c)" "length (storage c) \<le> max_size"
    "r \<le> length (storage c) - 1"
  shows "single_shift_left c i r =
     Some (c\<lparr>storage := take r (take i (storage c) @ drop (Suc i) (storage c))
                @ storage c ! i # drop r (take i (storage c) @ drop (Suc i) (storage c))\<rparr>)"
proof -
  have "r \<noteq> SIZE_MAX" using assms by (auto simp: SIZE_MAX_def max_size_def)
  then show ?thesis using assms
    by (simp add: single_shift_left_def elem_def erase_at_def insert_at_def min_def)
qed

lemma sorted_update_in_place:
  fixes xs :: "'a::linorder list"
  assumes srt: "sorted xs" and i: "i < length xs"
    and lo: "0 < i \<Longrightarrow> xs ! (i - 1) \<le> v"
    and hi: "i < length xs - 1 \<Longrightarrow> v \<le> xs ! (i + 1)"
  shows "sorted (xs[i := v])"
proof (unfold sorted_iff_nth_mono, intro allI impI)
  fix a b assume ab: "a \<le> b" and b: "b < length (xs[i := v])"
  then have bl: "b < length xs" and al: "a < length xs" by auto
  consider (none) "a \<noteq> i" "b \<noteq> i" | (both) "a = i" "b = i" | (left) "a = i" "b \<noteq> i"
    | (right) "a \<noteq> i" "b = i" by blast
  then show "xs[i := v] ! a \<le> xs[i := v] ! b"
  proof cases
    case none
    then show ?thesis using sorted_nth_mono[OF srt ab bl] by simp
  next
    case both
    then show ?thesis using i by simp
  next
    case left
    then have ib: "i + 1 \<le> b" using ab by simp
    then have "i < length xs - 1" using bl by simp
    then have "v \<le> xs ! (i + 1)" by (rule hi)
    also have "xs ! (i + 1) \<le> xs ! b" using sorted_nth_mono[OF srt ib bl] .
    finally show ?thesis using left i by simp
  next
    case right
    then have ai: "a \<le> i - 1" "0 < i" using ab by auto
    have "xs ! a \<le> xs ! (i - 1)" using sorted_nth_mono[OF srt ai(1)] i by simp
    also have "xs ! (i - 1) \<le> v" using ai(2) by (rule lo)
    finally show ?thesis using right i by simp
  qed
qed

text \<open>
  The single-position branch of \<open>repair\<close>: the storage is a sorted sequence \<open>xs\<close> in which
  position \<open>i\<close> has been overwritten with \<open>v\<close>. Whichever of the three cases applies
  (shift towards the front, shift towards the back, nothing to do), the branch returns
  and leaves a sorted rearrangement of the storage.
\<close>

lemma repair_single_sorts:
  fixes c :: "'a::linorder sorted_vector"
  assumes srt: "sorted xs" and i: "i < length xs" and len: "length xs \<le> max_size"
    and st: "storage c = xs[i := v]" and lm: "last_modified c = i" and nc: "\<not> is_corrupted c"
  shows "\<exists>c'. repair_single c = Some c' \<and> sorted (storage c')
            \<and> mset (storage c') = mset (xs[i := v])"
proof -
  let ?ys = "xs[i := v]"
  let ?zs = "take i xs @ drop (Suc i) xs"
  let ?W = "\<lambda>r. take r ?zs @ v # drop r ?zs"
  have lys: "length ?ys = length xs" by simp
  have ysi: "?ys ! i = v" using i by simp
  have ysj: "?ys ! j = xs ! j" if "j \<noteq> i" for j using that by simp
  have zs: "take i ?ys @ drop (Suc i) ?ys = ?zs" by simp
  have szs: "sorted ?zs" using srt by (rule sorted_remove)
  have lzs: "length ?zs = length xs - 1" using i by simp
  have elem_ys: "elem ?ys j = Some (?ys ! j)" if "j < length xs" for j
    using that len by (simp add: elem_def)
  have isz: "sz_sub i 1 = i - 1" "sz_sub i (Suc 0) = i - 1" if "0 < i"
    using that by (simp_all add: sz_sub_def)
  have iszadd: "sz_add i 1 = i + 1" "sz_add i (Suc 0) = i + 1"
    using i len by (simp_all add: sz_add_def max_size_def)
  have nsz: "sz_sub (length xs) 1 = length xs - 1" "sz_sub (length xs) (Suc 0) = length xs - 1"
    using i by (simp_all add: sz_sub_def)
  consider (A) "0 < i" "v < xs ! (i - 1)"
    | (B) "\<not> (0 < i \<and> v < xs ! (i - 1))" "i < length xs - 1" "xs ! (i + 1) < v"
    | (C) "\<not> (0 < i \<and> v < xs ! (i - 1))" "\<not> (i < length xs - 1 \<and> xs ! (i + 1) < v)"
    by (cases "0 < i \<and> v < xs ! (i - 1)"; cases "i < length xs - 1 \<and> xs ! (i + 1) < v") auto
  then show ?thesis
  proof cases
    case A
    have e: "i - 1 < length (storage c)" using i st by simp
    have lenc: "length (storage c) \<le> max_size" using len st by simp
    have lt1: "lt_at ?ys i (sz_sub i 1) = Some True"
      using A i elem_ys[of i] elem_ys[of "i - 1"] ysj[of "i - 1"] ysi
      by (simp add: lt_at_def isz)
    have "\<exists>r. find_ceil c v 0 (i - 1) = Some r \<and>
      (if storage c ! (i - 1) < v then r = SIZE_MAX
       else r \<le> i - 1 \<and> v \<le> storage c ! r
            \<and> (\<forall>j. r < j \<and> j \<le> i - 1 \<longrightarrow> v < storage c ! j)
            \<and> (\<forall>j. j < r \<longrightarrow>
                  (if storage c ! r = v then storage c ! j \<le> v else storage c ! j < v)))"
    proof (rule find_ceil_sorted_range[OF nc lenc e])
      fix a b assume ab: "a \<le> b" "b \<le> i - 1"
      then have "a \<noteq> i" "b \<noteq> i" "b < length xs" using A(1) i by auto
      then show "storage c ! a \<le> storage c ! b"
        using sorted_nth_mono[OF srt ab(1)] st by simp
    qed
    moreover have "\<not> storage c ! (i - 1) < v" using A st by simp
    ultimately obtain r where r: "find_ceil c v 0 (i - 1) = Some r" "r \<le> i - 1"
      "v \<le> storage c ! r"
      "\<forall>j. j < r \<longrightarrow> (if storage c ! r = v then storage c ! j \<le> v else storage c ! j < v)"
      by auto
    have ri: "r < i" using r(2) A(1) by simp
    have vr: "v \<le> xs ! r" using r(3) st ri by simp
    have below: "xs ! j \<le> v" if "j < r" for j
    proof -
      have "if storage c ! r = v then storage c ! j \<le> v else storage c ! j < v"
        using r(4) that by blast
      then have "storage c ! j \<le> v" by (simp split: if_splits)
      then show ?thesis using st that ri by simp
    qed
    define c1 where "c1 = c\<lparr>storage := ?W r\<rparr>"
    have shift: "single_shift_right c r i = Some c1"
    proof -
      have "single_shift_right c r i =
        Some (c\<lparr>storage := take r (take i (storage c) @ drop (Suc i) (storage c))
                @ storage c ! i # drop r (take i (storage c) @ drop (Suc i) (storage c))\<rparr>)"
        by (rule single_shift_right_eval) (use ri i len st in auto)
      then show ?thesis using st i by (simp add: c1_def)
    qed
    have asg: "assign_at (storage c1) r v = Some (?W r)"
      using ri i len by (auto simp: c1_def assign_at_def list_update_append)
    have fin: "c1\<lparr>storage := ?W r\<rparr> = c1" by (simp add: c1_def)
    have cond: "(if 0 < i then lt_at ?ys i (sz_sub i 1) else Some False) = Some True"
      using lt1 A(1) by simp
    have el: "elem ?ys i = Some v" using elem_ys[OF i] ysi by simp
    have fc: "find_ceil c v 0 (sz_sub i 1) = Some r" using r(1) isz(1)[OF A(1)] by simp
    have res: "repair_single c = Some (c\<lparr>storage := ?W r\<rparr>)"
      unfolding repair_single_def lm st c1_def[symmetric]
      by (simp only: cond el fc shift asg fin option.case bool.case)
    have "sorted (?W r)"
    proof (rule sorted_insert_at[OF szs])
      show "r \<le> length ?zs" using ri i by simp
      show "?zs ! j \<le> v" if "j < r" for j
        using below[OF that] nth_remove[OF i, of j] that ri i by simp
      show "v \<le> ?zs ! j" if "r \<le> j" "j < length ?zs" for j
      proof -
        have jl: "j < length xs - 1" using that lzs by simp
        have "xs ! r \<le> xs ! j" "xs ! r \<le> xs ! Suc j"
          using sorted_nth_mono[OF srt, of r j] sorted_nth_mono[OF srt, of r "Suc j"] that jl
          by auto
        then have "xs ! r \<le> ?zs ! j" using nth_remove[OF i jl] by simp
        with vr show ?thesis by (rule order_trans)
      qed
    qed
    moreover have "mset (?W r) = mset ?ys"
      by (rule mset_relocate) (use ri i in auto)
    ultimately show ?thesis using res by simp
  next
    case B
    have i1: "i + 1 < length xs" using B(2) by simp
    have e: "length xs - 1 < length (storage c)" using i st by simp
    have lenc: "length (storage c) \<le> max_size" using len st by simp
    have first: "(if 0 < i then lt_at ?ys i (sz_sub i 1) else Some False) = Some False"
      using B(1) i elem_ys[of i] elem_ys[of "i - 1"] ysj[of "i - 1"] ysi
      by (auto simp: lt_at_def isz)
    have second: "lt_at ?ys (sz_add i 1) i = Some True"
      using B(3) i1 elem_ys[of i] elem_ys[of "i + 1"] ysj[of "i + 1"] ysi i
      by (simp add: lt_at_def iszadd)
    have "\<exists>r. find_floor c v (i + 1) (length xs - 1) = Some r \<and>
      (if v < storage c ! (i + 1) then r = SIZE_MAX
       else i + 1 \<le> r \<and> r \<le> length xs - 1 \<and> storage c ! r \<le> v
            \<and> (\<forall>j. i + 1 \<le> j \<and> j < r \<longrightarrow> storage c ! j < v)
            \<and> (\<forall>j. r < j \<and> j \<le> length xs - 1 \<longrightarrow>
                  (if storage c ! r = v then v \<le> storage c ! j else v < storage c ! j)))"
    proof (rule find_floor_sorted_range[OF nc lenc e])
      show "i + 1 \<le> length xs - 1" using i1 by simp
      fix a b assume ab: "i + 1 \<le> a" "a \<le> b" "b \<le> length xs - 1"
      then have "a \<noteq> i" "b \<noteq> i" "b < length xs" using i by auto
      then show "storage c ! a \<le> storage c ! b"
        using sorted_nth_mono[OF srt ab(2)] st by simp
    qed
    moreover have "\<not> v < storage c ! (i + 1)" using B(3) st by simp
    ultimately obtain r where r: "find_floor c v (i + 1) (length xs - 1) = Some r"
      "i + 1 \<le> r" "r \<le> length xs - 1" "storage c ! r \<le> v"
      "\<forall>j. r < j \<and> j \<le> length xs - 1 \<longrightarrow>
                  (if storage c ! r = v then v \<le> storage c ! j else v < storage c ! j)"
      by auto
    have ri: "i < r" "r < length xs" using r(2) r(3) i by auto
    have rv: "xs ! r \<le> v" using r(4) st ri by simp
    have above: "v \<le> xs ! j" if "r < j" "j < length xs" for j
    proof -
      have "r < j \<and> j \<le> length xs - 1" using that by simp
      then have "if storage c ! r = v then v \<le> storage c ! j else v < storage c ! j"
        using r(5) by blast
      then have "v \<le> storage c ! j" by (simp split: if_splits)
      then show ?thesis using st that ri by simp
    qed
    define c1 where "c1 = c\<lparr>storage := ?W r\<rparr>"
    have shift: "single_shift_left c i r = Some c1"
    proof -
      have "single_shift_left c i r =
        Some (c\<lparr>storage := take r (take i (storage c) @ drop (Suc i) (storage c))
                @ storage c ! i # drop r (take i (storage c) @ drop (Suc i) (storage c))\<rparr>)"
        by (rule single_shift_left_eval) (use ri i len st in auto)
      then show ?thesis using st i by (simp add: c1_def)
    qed
    have asg: "assign_at (storage c1) r v = Some (?W r)"
      using ri i len by (auto simp: c1_def assign_at_def list_update_append)
    have fin: "c1\<lparr>storage := ?W r\<rparr> = c1" by (simp add: c1_def)
    have cond2: "(if i < sz_sub (length ?ys) 1 then lt_at ?ys (sz_add i 1) i else Some False)
                  = Some True"
      using second B(2) nsz by simp
    have el: "elem ?ys i = Some v" using elem_ys[OF i] ysi by simp
    have ff: "find_floor c v (sz_add i 1) (sz_sub (length ?ys) 1) = Some r"
      using r(1) iszadd nsz by simp
    have res: "repair_single c = Some (c\<lparr>storage := ?W r\<rparr>)"
      unfolding repair_single_def lm st c1_def[symmetric]
      by (simp only: first cond2 el ff shift asg fin option.case bool.case)
    have "sorted (?W r)"
    proof (rule sorted_insert_at[OF szs])
      show "r \<le> length ?zs" using ri i by simp
      show "?zs ! j \<le> v" if "j < r" for j
      proof -
        have jl: "j < length xs - 1" using that ri by simp
        have "xs ! j \<le> xs ! r" "Suc j \<le> r \<Longrightarrow> xs ! Suc j \<le> xs ! r"
          using sorted_nth_mono[OF srt, of j r] sorted_nth_mono[OF srt, of "Suc j" r] that ri
          by auto
        then have "?zs ! j \<le> xs ! r" using nth_remove[OF i jl] that by simp
        then show ?thesis using rv by (rule order_trans)
      qed
      show "v \<le> ?zs ! j" if "r \<le> j" "j < length ?zs" for j
      proof -
        have jl: "j < length xs - 1" using that lzs by simp
        have "?zs ! j = xs ! Suc j" using nth_remove[OF i jl] that ri by simp
        moreover have "v \<le> xs ! Suc j" using above[of "Suc j"] that jl by simp
        ultimately show ?thesis by simp
      qed
    qed
    moreover have "mset (?W r) = mset ?ys"
      by (rule mset_relocate) (use ri i in auto)
    ultimately show ?thesis using res by simp
  next
    case C
    have first: "(if 0 < i then lt_at ?ys i (sz_sub i 1) else Some False) = Some False"
      using C(1) i elem_ys[of i] elem_ys[of "i - 1"] ysj[of "i - 1"] ysi
      by (auto simp: lt_at_def isz)
    have second: "(if i < length xs - 1 then lt_at ?ys (sz_add i 1) i else Some False) = Some False"
      using C(2) i elem_ys[of i] elem_ys[of "i + 1"] ysj[of "i + 1"] ysi
      by (auto simp: lt_at_def iszadd)
    have cond2: "(if i < sz_sub (length ?ys) 1 then lt_at ?ys (sz_add i 1) i else Some False)
                  = Some False"
      using second nsz by simp
    have res: "repair_single c = Some c"
      unfolding repair_single_def lm st
      by (simp only: first cond2 option.case bool.case)
    have "sorted ?ys"
    proof (rule sorted_update_in_place[OF srt i])
      show "xs ! (i - 1) \<le> v" if "0 < i" using C(1) that by simp
      show "v \<le> xs ! (i + 1)" if "i < length xs - 1" using C(2) that by simp
    qed
    then show ?thesis using res st by simp
  qed
qed


lemma repair_dirty_single:
  fixes c :: "'a::linorder sorted_vector"
  assumes srt: "sorted xs" and i: "i < length xs" and len: "length xs \<le> max_size"
    and st: "storage c = xs[i := v]" and lm: "last_modified c = i" and co: "is_corrupted c"
  shows "\<exists>c'. repair c = Some c' \<and> storage c' = sort (xs[i := v]) \<and> \<not> is_corrupted c'"
proof -
  let ?c0 = "c\<lparr>is_corrupted := False\<rparr>"
  have nS: "last_modified c \<noteq> SIZE_MAX" using lm i len by (auto simp: SIZE_MAX_def max_size_def)
  have "\<exists>c'. repair_single ?c0 = Some c' \<and> sorted (storage c')
            \<and> mset (storage c') = mset (xs[i := v])"
    by (rule repair_single_sorts[OF srt i len]) (use st lm in simp_all)
  then obtain c' where c': "repair_single ?c0 = Some c'" "sorted (storage c')"
    "mset (storage c') = mset (xs[i := v])" by blast
  have "repair c = Some (c'\<lparr>last_modified := SIZE_MAX\<rparr>)"
    using co nS c'(1) by (simp add: repair_def)
  moreover have "sort (xs[i := v]) = storage c'"
    using c'(3) c'(2) by (rule properties_for_sort)
  moreover have "\<not> is_corrupted c'" using repair_single_fields[OF c'(1)] by simp
  ultimately show ?thesis by simp
qed

lemma operator_index_sorted_state:
  "\<not> is_corrupted c \<Longrightarrow> pos < length (storage c) \<Longrightarrow> length (storage c) \<le> max_size \<Longrightarrow>
     operator_index c pos = Some (c\<lparr>last_modified := pos, is_corrupted := True\<rparr>)"
  by (simp add: operator_index_def repair_sorted_state)

text \<open>
  Claim C4: on a sorted, not corrupted container, after \<open>operator[](i)\<close>, one assignment
  through the returned reference and \<open>repair()\<close>, the storage is the fully sorted
  post-mutation content. This holds whatever the suspend flag is (with the flag set and
  the container not corrupted, \<open>operator[]\<close> tracks the single position \<open>i\<close>), and also
  when \<open>suspend_autorepair()\<close> is called first, which marks the container corrupted with
  unknown position so that \<open>repair\<close> sorts.
\<close>

theorem repair_after_single_mutation:
  fixes c :: "'a::linorder sorted_vector"
  assumes srt: "sorted (storage c)" and nc: "\<not> is_corrupted c"
    and len: "length (storage c) \<le> max_size" and i: "i < length (storage c)"
  shows "(\<exists>c1 c2. operator_index c i = Some c1 \<and> last_modified c1 = i
            \<and> repair (write_ref c1 i v) = Some c2
            \<and> storage c2 = sort ((storage c)[i := v]) \<and> \<not> is_corrupted c2)
       \<and> (\<exists>c1 c2. operator_index (suspend_autorepair c) i = Some c1
            \<and> repair (write_ref c1 i v) = Some c2
            \<and> storage c2 = sort ((storage c)[i := v]) \<and> \<not> is_corrupted c2)"
proof (rule conjI)
  let ?c1 = "c\<lparr>last_modified := i, is_corrupted := True\<rparr>"
  have a: "operator_index c i = Some ?c1"
    using nc i len by (rule operator_index_sorted_state)
  have "\<exists>c'. repair (write_ref ?c1 i v) = Some c' \<and> storage c' = sort ((storage c)[i := v])
          \<and> \<not> is_corrupted c'"
    by (rule repair_dirty_single[OF srt i len]) (simp_all add: write_ref_def)
  then show "\<exists>c1 c2. operator_index c i = Some c1 \<and> last_modified c1 = i
            \<and> repair (write_ref c1 i v) = Some c2
            \<and> storage c2 = sort ((storage c)[i := v]) \<and> \<not> is_corrupted c2"
    using a by auto
next
  let ?c1 = "c\<lparr>flag_suspend_autorepair := True, last_modified := SIZE_MAX, is_corrupted := True\<rparr>"
  have a: "operator_index (suspend_autorepair c) i = Some ?c1"
    using i len by (simp add: operator_index_def suspend_autorepair_def)
  have b: "repair (write_ref ?c1 i v) =
      Some (?c1\<lparr>storage := sort ((storage c)[i := v]), is_corrupted := False\<rparr>)"
    by (simp add: repair_def write_ref_def sort_sv_def)
  show "\<exists>c1 c2. operator_index (suspend_autorepair c) i = Some c1
            \<and> repair (write_ref c1 i v) = Some c2
            \<and> storage c2 = sort ((storage c)[i := v]) \<and> \<not> is_corrupted c2"
    using a b by simp
qed

theorem repair_after_single_mutation_witness:
  "sorted [1, 3, 5, 7, 9 :: int] \<and> length [1, 3, 5, 7, 9 :: int] \<le> max_size
   \<and> (2 :: nat) < length [1, 3, 5, 7, 9 :: int]
   \<and> operator_index \<lparr>storage = [1, 3, 5, 7, 9 :: int], last_modified = SIZE_MAX,
        is_corrupted = False, flag_suspend_autorepair = False\<rparr> 2
      = Some \<lparr>storage = [1, 3, 5, 7, 9], last_modified = 2,
        is_corrupted = True, flag_suspend_autorepair = False\<rparr>
   \<and> map_option storage
        (repair (write_ref \<lparr>storage = [1, 3, 5, 7, 9 :: int], last_modified = 2,
           is_corrupted = True, flag_suspend_autorepair = False\<rparr> 2 0))
      = Some [0, 1, 3, 7, 9]"
proof -
  let ?c = "\<lparr>storage = [1, 3, 5, 7, 9 :: int], last_modified = SIZE_MAX,
        is_corrupted = False, flag_suspend_autorepair = False\<rparr>"
  let ?c1 = "\<lparr>storage = [1, 3, 5, 7, 9 :: int], last_modified = 2,
        is_corrupted = True, flag_suspend_autorepair = False\<rparr>"
  have h1: "sorted (storage ?c)" by simp
  have h2: "\<not> is_corrupted ?c" by simp
  have h3: "length (storage ?c) \<le> max_size" by (simp add: max_size_def)
  have h4: "2 < length (storage ?c)" by simp
  have op: "operator_index ?c 2 = Some ?c1"
    by (simp add: operator_index_def repair_def max_size_def)
  from repair_after_single_mutation[OF h1 h2 h3 h4, of 0]
  obtain c1 c2 where "operator_index ?c 2 = Some c1" "repair (write_ref c1 2 0) = Some c2"
    "storage c2 = sort ((storage ?c)[2 := 0])" by blast
  then have "repair (write_ref ?c1 2 0) = Some c2" "storage c2 = [0, 1, 3, 7, 9]"
    using op by simp_all
  then have "map_option storage (repair (write_ref ?c1 2 0)) = Some [0, 1, 3, 7, 9]" by simp
  then show ?thesis using h1 h3 h4 op by simp
qed

section \<open>Non-const element access, repair and tracking\<close>

text \<open>
  Claim C7, amended: a non-const \<open>operator[](pos)\<close> on a position inside the storage
  (and a non-const iterator dereference, which is the same call) first repairs the
  container unless autorepair is suspended, and leaves it corrupted; the tracked position
  is \<open>pos\<close>, except when the container was already corrupted and autorepair is suspended,
  where it is "unknown". In detail:
  \<^item> with autorepair suspended the call returns, the storage is untouched, and the tracking
    is \<open>pos\<close> if the container was not corrupted and "unknown" if it was;
  \<^item> on a container that is not corrupted the call returns, the storage is untouched and
    \<open>pos\<close> is tracked;
  \<^item> on a container corrupted with unknown position and autorepair active the call returns,
    the storage has been sorted and \<open>pos\<close> is tracked;
  \<^item> on a container corrupted by one overwritten position of a sorted storage, with that
    position tracked and autorepair active, the call returns, the storage has been sorted
    and \<open>pos\<close> is tracked;
  \<^item> whenever the call returns, the container is corrupted, \<open>pos\<close> is inside its storage,
    the tracking is as above, and its storage is the one \<open>repair\<close> returned (autorepair
    active) or the one it had (autorepair suspended).
\<close>

theorem operator_index_tracking:
  fixes c :: "'a::linorder sorted_vector"
  shows
  "(flag_suspend_autorepair c \<and> pos < length (storage c) \<and> length (storage c) \<le> max_size \<longrightarrow>
      operator_index c pos =
        Some (c\<lparr>last_modified := (if is_corrupted c then SIZE_MAX else pos),
                is_corrupted := True\<rparr>))
   \<and> (\<not> is_corrupted c \<and> pos < length (storage c) \<and> length (storage c) \<le> max_size \<longrightarrow>
      operator_index c pos = Some (c\<lparr>last_modified := pos, is_corrupted := True\<rparr>))
   \<and> (is_corrupted c \<and> \<not> flag_suspend_autorepair c \<and> last_modified c = SIZE_MAX
        \<and> pos < length (storage c) \<and> length (storage c) \<le> max_size \<longrightarrow>
      operator_index c pos =
        Some (c\<lparr>storage := sort (storage c), last_modified := pos, is_corrupted := True\<rparr>))
   \<and> (is_corrupted c \<and> \<not> flag_suspend_autorepair c \<and> last_modified c = i
        \<and> sorted xs \<and> i < length xs \<and> storage c = xs[i := v]
        \<and> pos < length (storage c) \<and> length (storage c) \<le> max_size \<longrightarrow>
      (\<exists>c'. operator_index c pos = Some c' \<and> storage c' = sort (storage c)
            \<and> last_modified c' = pos \<and> is_corrupted c'
            \<and> flag_suspend_autorepair c' = flag_suspend_autorepair c))
   \<and> (operator_index c pos = Some c' \<longrightarrow>
      is_corrupted c' \<and> pos < length (storage c')
      \<and> last_modified c' =
           (if is_corrupted c \<and> flag_suspend_autorepair c then SIZE_MAX else pos)
      \<and> (if flag_suspend_autorepair c then storage c' = storage c
          else \<exists>c1. repair c = Some c1 \<and> storage c' = storage c1))
   \<and> iterator_deref c pos = operator_index c pos"
proof (intro conjI impI)
  assume "flag_suspend_autorepair c \<and> pos < length (storage c) \<and> length (storage c) \<le> max_size"
  then show "operator_index c pos =
        Some (c\<lparr>last_modified := (if is_corrupted c then SIZE_MAX else pos),
                is_corrupted := True\<rparr>)"
    by (simp add: operator_index_def)
next
  assume "\<not> is_corrupted c \<and> pos < length (storage c) \<and> length (storage c) \<le> max_size"
  then show "operator_index c pos = Some (c\<lparr>last_modified := pos, is_corrupted := True\<rparr>)"
    by (simp add: operator_index_sorted_state)
next
  assume "is_corrupted c \<and> \<not> flag_suspend_autorepair c \<and> last_modified c = SIZE_MAX
        \<and> pos < length (storage c) \<and> length (storage c) \<le> max_size"
  then show "operator_index c pos =
        Some (c\<lparr>storage := sort (storage c), last_modified := pos, is_corrupted := True\<rparr>)"
    by (simp add: operator_index_def repair_def sort_sv_def)
next
  assume a: "is_corrupted c \<and> \<not> flag_suspend_autorepair c \<and> last_modified c = i
        \<and> sorted xs \<and> i < length xs \<and> storage c = xs[i := v]
        \<and> pos < length (storage c) \<and> length (storage c) \<le> max_size"
  then have len: "length xs \<le> max_size" and pos: "pos < length xs" by auto
  have "\<exists>c1. repair c = Some c1 \<and> storage c1 = sort (xs[i := v]) \<and> \<not> is_corrupted c1"
    by (rule repair_dirty_single[OF _ _ len]) (use a in simp_all)
  then obtain c1 where c1: "repair c = Some c1" "storage c1 = sort (xs[i := v])"
    "\<not> is_corrupted c1" by blast
  have fl: "flag_suspend_autorepair c1 = flag_suspend_autorepair c"
    using repair_clears[OF c1(1)] by simp
  have "operator_index c pos = Some (c1\<lparr>last_modified := pos, is_corrupted := True\<rparr>)"
    using a c1 pos len by (simp add: operator_index_def)
  then show "\<exists>c'. operator_index c pos = Some c' \<and> storage c' = sort (storage c)
            \<and> last_modified c' = pos \<and> is_corrupted c'
            \<and> flag_suspend_autorepair c' = flag_suspend_autorepair c"
    using c1(2) fl a by simp
next
  assume a: "operator_index c pos = Some c'"
  show "is_corrupted c'"
    using a by (auto simp: operator_index_def split: option.splits if_splits)
  show "pos < length (storage c')"
    using a by (auto simp: operator_index_def split: option.splits if_splits)
  show "last_modified c' = (if is_corrupted c \<and> flag_suspend_autorepair c then SIZE_MAX else pos)"
  proof (cases "flag_suspend_autorepair c")
    case True
    with a show ?thesis by (auto simp: operator_index_def split: if_splits)
  next
    case False
    with a obtain c1 where c1: "repair c = Some c1"
      by (auto simp: operator_index_def split: option.splits)
    then have "\<not> is_corrupted c1" using repair_clears by blast
    with a c1 False show ?thesis by (auto simp: operator_index_def split: if_splits)
  qed
  show "if flag_suspend_autorepair c then storage c' = storage c
          else \<exists>c1. repair c = Some c1 \<and> storage c' = storage c1"
    using a by (auto simp: operator_index_def split: option.splits if_splits)
next
  show "iterator_deref c pos = operator_index c pos" by (simp add: iterator_deref_def)
qed

theorem operator_index_tracking_witness:
  "operator_index \<lparr>storage = [1, 2, 3 :: int], last_modified = SIZE_MAX, is_corrupted = False,
                   flag_suspend_autorepair = False\<rparr> 1
   = Some \<lparr>storage = [1, 2, 3], last_modified = 1, is_corrupted = True,
           flag_suspend_autorepair = False\<rparr>
   \<and> operator_index \<lparr>storage = [3, 1, 2 :: int], last_modified = SIZE_MAX, is_corrupted = True,
                   flag_suspend_autorepair = True\<rparr> 0
   = Some \<lparr>storage = [3, 1, 2], last_modified = SIZE_MAX, is_corrupted = True,
           flag_suspend_autorepair = True\<rparr>
   \<and> operator_index \<lparr>storage = [3, 1, 2 :: int], last_modified = SIZE_MAX, is_corrupted = True,
                   flag_suspend_autorepair = False\<rparr> 0
   = Some \<lparr>storage = [1, 2, 3], last_modified = 0, is_corrupted = True,
           flag_suspend_autorepair = False\<rparr>
   \<and> sorted [1, 3, 5, 7, 9 :: int] \<and> (2 :: nat) < length [1, 3, 5, 7, 9 :: int]
   \<and> [1, 3, 0, 7, 9] = [1, 3, 5, 7, 9 :: int][2 := 0]
   \<and> (\<exists>c'. operator_index \<lparr>storage = [1, 3, 0, 7, 9 :: int], last_modified = 2,
                   is_corrupted = True, flag_suspend_autorepair = False\<rparr> 1 = Some c'
         \<and> storage c' = [0, 1, 3, 7, 9] \<and> last_modified c' = 1 \<and> is_corrupted c'
         \<and> \<not> flag_suspend_autorepair c')"
proof -
  let ?s = "\<lparr>storage = [1, 2, 3 :: int], last_modified = SIZE_MAX, is_corrupted = False,
                   flag_suspend_autorepair = False\<rparr>"
  let ?u = "\<lparr>storage = [3, 1, 2 :: int], last_modified = SIZE_MAX, is_corrupted = True,
                   flag_suspend_autorepair = True\<rparr>"
  let ?d = "\<lparr>storage = [3, 1, 2 :: int], last_modified = SIZE_MAX, is_corrupted = True,
                   flag_suspend_autorepair = False\<rparr>"
  let ?e = "\<lparr>storage = [1, 3, 0, 7, 9 :: int], last_modified = 2,
                   is_corrupted = True, flag_suspend_autorepair = False\<rparr>"
  have m3: "length [1, 2, 3 :: int] \<le> max_size" "length [3, 1, 2 :: int] \<le> max_size"
    "length [1, 3, 0, 7, 9 :: int] \<le> max_size" by (simp_all add: max_size_def)
  have w1: "operator_index ?s 1 = Some (?s\<lparr>last_modified := 1, is_corrupted := True\<rparr>)"
    using operator_index_tracking[where c = ?s and pos = 1, THEN conjunct2, THEN conjunct1] m3
    by simp
  have w2: "operator_index ?u 0 =
      Some (?u\<lparr>last_modified := (if is_corrupted ?u then SIZE_MAX else 0), is_corrupted := True\<rparr>)"
    using operator_index_tracking[where c = ?u and pos = 0, THEN conjunct1] m3 by simp
  have w3: "operator_index ?d 0 =
      Some (?d\<lparr>storage := sort (storage ?d), last_modified := 0, is_corrupted := True\<rparr>)"
    using operator_index_tracking[where c = ?d and pos = 0, THEN conjunct2, THEN conjunct2,
        THEN conjunct1] m3
    by simp
  have h: "sorted [1, 3, 5, 7, 9 :: int]" "(2 :: nat) < length [1, 3, 5, 7, 9 :: int]"
    "[1, 3, 0, 7, 9] = [1, 3, 5, 7, 9 :: int][2 := 0]" by simp_all
  have "is_corrupted ?e \<and> \<not> flag_suspend_autorepair ?e \<and> last_modified ?e = 2
        \<and> sorted [1, 3, 5, 7, 9 :: int] \<and> 2 < length [1, 3, 5, 7, 9 :: int]
        \<and> storage ?e = [1, 3, 5, 7, 9 :: int][2 := 0]
        \<and> 1 < length (storage ?e) \<and> length (storage ?e) \<le> max_size"
    using m3 by simp
  with operator_index_tracking[where c = ?e and pos = 1 and i = 2
      and xs = "[1, 3, 5, 7, 9 :: int]" and v = 0, THEN conjunct2, THEN conjunct2,
      THEN conjunct2, THEN conjunct1]
  have "\<exists>c'. operator_index ?e 1 = Some c' \<and> storage c' = sort (storage ?e)
            \<and> last_modified c' = 1 \<and> is_corrupted c'
            \<and> flag_suspend_autorepair c' = flag_suspend_autorepair ?e"
    by blast
  then have w4: "\<exists>c'. operator_index ?e 1 = Some c' \<and> storage c' = [0, 1, 3, 7, 9]
         \<and> last_modified c' = 1 \<and> is_corrupted c' \<and> \<not> flag_suspend_autorepair c'"
    by simp
  have w1': "operator_index ?s 1 = Some \<lparr>storage = [1, 2, 3], last_modified = 1,
      is_corrupted = True, flag_suspend_autorepair = False\<rparr>"
    using w1 by simp
  have w2': "operator_index ?u 0 = Some \<lparr>storage = [3, 1, 2], last_modified = SIZE_MAX,
      is_corrupted = True, flag_suspend_autorepair = True\<rparr>"
    using w2 by simp
  have w3': "operator_index ?d 0 = Some \<lparr>storage = [1, 2, 3], last_modified = 0,
      is_corrupted = True, flag_suspend_autorepair = False\<rparr>"
    using w3 by simp
  show ?thesis by (intro conjI; (rule w1' w2' w3' h w4))
qed

section \<open>Binary search on a sorted storage\<close>

lemma find_loop_sorted:
  fixes xs :: "'a::linorder list"
  assumes len: "length xs \<le> max_size" and srt: "sorted xs"
  shows "l < length xs \<Longrightarrow>
     \<exists>r. find_loop xs t f l = Some r \<and>
       (if (\<exists>k. f \<le> k \<and> k \<le> l \<and> xs ! k = t) then f \<le> r \<and> r \<le> l \<and> xs ! r = t
        else r = SIZE_MAX)"
proof (induction "Suc l - f" arbitrary: f l rule: less_induct)
  case less
  note ll = \<open>l < length xs\<close>
  define E where "E = (\<lambda>f l. \<exists>k. f \<le> k \<and> k \<le> l \<and> xs ! k = t)"
  have EI: "E f' l'" if "f' \<le> k" "k \<le> l'" "xs ! k = t" for f' l' k
    using that unfolding E_def by blast
  have IH: "\<exists>r. find_loop xs t f' l' = Some r \<and>
       (if E f' l' then f' \<le> r \<and> r \<le> l' \<and> xs ! r = t else r = SIZE_MAX)"
    if "Suc l' - f' < Suc l - f" "l' < length xs" for f' l'
    using less.hyps[OF that] unfolding E_def .
  have goal: "\<exists>r. find_loop xs t f l = Some r \<and>
       (if E f l then f \<le> r \<and> r \<le> l \<and> xs ! r = t else r = SIZE_MAX)"
  proof (cases "f \<le> l")
    case False
    then have "find_loop xs t f l = Some SIZE_MAX" by (subst find_loop.simps) simp
    moreover have "\<not> E f l" using False unfolding E_def by auto
    ultimately show ?thesis by simp
  next
    case True
    define m where "m = (f + l) div 2"
    have mb: "f \<le> m" "m \<le> l" using True by (auto simp: m_def)
    have mid: "sz_add f l div 2 = m"
      using True ll len by (simp add: sz_add_def max_size_def m_def)
    have el: "elem xs m = Some (xs ! m)" "elem xs f = Some (xs ! f)" "elem xs l = Some (xs ! l)"
      using mb True ll len by (simp_all add: elem_def)
    show ?thesis
    proof (cases "xs ! m = t \<or> xs ! f = t \<or> xs ! l = t")
      case True
      then consider (m) "xs ! m = t" | (f) "xs ! m \<noteq> t" "xs ! f = t"
        | (l) "xs ! m \<noteq> t" "xs ! f \<noteq> t" "xs ! l = t" by blast
      then show ?thesis
      proof cases
        case m
        have "find_loop xs t f l = Some m"
          using \<open>f \<le> l\<close> el m mid by (subst find_loop.simps) simp
        moreover have "E f l" using mb m by (rule EI)
        ultimately show ?thesis using mb m by simp
      next
        case f
        have "find_loop xs t f l = Some f"
          using \<open>f \<le> l\<close> el f mid by (subst find_loop.simps) simp
        moreover have "E f l" using _ \<open>f \<le> l\<close> f(2) by (rule EI) simp
        ultimately show ?thesis using \<open>f \<le> l\<close> f by simp
      next
        case l
        have "find_loop xs t f l = Some l"
          using \<open>f \<le> l\<close> el l mid by (subst find_loop.simps) simp
        moreover have "E f l" using \<open>f \<le> l\<close> _ l(3) by (rule EI) simp
        ultimately show ?thesis using \<open>f \<le> l\<close> l by simp
      qed
    next
      case False
      then have ne: "xs ! m \<noteq> t" "xs ! f \<noteq> t" "xs ! l \<noteq> t" by auto
      show ?thesis
      proof (cases "xs ! m < t")
        case lt: True
        have m1: "sz_add m 1 = m + 1" using mb ll len by (simp add: sz_add_def max_size_def)
        have res: "find_loop xs t f l = find_loop xs t (m + 1) l"
          using \<open>f \<le> l\<close> el ne lt mid m1 by (subst find_loop.simps) simp
        have "\<exists>r. find_loop xs t (m + 1) l = Some r \<and>
            (if E (m + 1) l then m + 1 \<le> r \<and> r \<le> l \<and> xs ! r = t else r = SIZE_MAX)"
          by (rule IH) (use mb ll in auto)
        then obtain r where r: "find_loop xs t (m + 1) l = Some r"
          "if E (m + 1) l then m + 1 \<le> r \<and> r \<le> l \<and> xs ! r = t else r = SIZE_MAX" by blast
        have iff: "E f l \<longleftrightarrow> E (m + 1) l"
        proof
          assume "E f l"
          then obtain k where k: "f \<le> k" "k \<le> l" "xs ! k = t" unfolding E_def by blast
          have "m < k"
          proof (rule ccontr)
            assume "\<not> m < k"
            then have "k \<le> m" by simp
            then have "xs ! k \<le> xs ! m" using sorted_nth_mono[OF srt, of k m] mb ll by simp
            then show False using k lt by simp
          qed
          then have "m + 1 \<le> k" by simp
          then show "E (m + 1) l" using k(2,3) by (rule EI)
        next
          assume "E (m + 1) l"
          then obtain k where k: "m + 1 \<le> k" "k \<le> l" "xs ! k = t" unfolding E_def by blast
          then have "f \<le> k" using mb by simp
          then show "E f l" using k(2,3) by (rule EI)
        qed
        have "if E f l then f \<le> r \<and> r \<le> l \<and> xs ! r = t else r = SIZE_MAX"
        proof (cases "E f l")
          case True
          then have "m + 1 \<le> r \<and> r \<le> l \<and> xs ! r = t" using r(2) iff by simp
          then have "f \<le> r \<and> r \<le> l \<and> xs ! r = t" using mb by auto
          then show ?thesis using True by simp
        next
          case False
          then show ?thesis using r(2) iff by simp
        qed
        then show ?thesis using res r(1) by simp
      next
        case nlt: False
        then have gt: "t < xs ! m" using ne by simp
        show ?thesis
        proof (cases "m = 0")
          case True
          have res: "find_loop xs t f l = Some SIZE_MAX"
            using \<open>f \<le> l\<close> el ne nlt mid True by (subst find_loop.simps) simp
          have "\<not> E f l"
          proof
            assume "E f l"
            then obtain k where k: "f \<le> k" "k \<le> l" "xs ! k = t" unfolding E_def by blast
            have "xs ! m \<le> xs ! k" using sorted_nth_mono[OF srt, of m k] True k ll by simp
            then show False using k gt by simp
          qed
          then show ?thesis using res by simp
        next
          case m0: False
          have m1: "sz_sub m 1 = m - 1" using m0 by (simp add: sz_sub_def)
          have res: "find_loop xs t f l = find_loop xs t f (m - 1)"
            using \<open>f \<le> l\<close> el ne nlt mid m1 m0 by (subst find_loop.simps) simp
          have "\<exists>r. find_loop xs t f (m - 1) = Some r \<and>
              (if E f (m - 1) then f \<le> r \<and> r \<le> m - 1 \<and> xs ! r = t else r = SIZE_MAX)"
            by (rule IH) (use mb ll m0 in auto)
          then obtain r where r: "find_loop xs t f (m - 1) = Some r"
            "if E f (m - 1) then f \<le> r \<and> r \<le> m - 1 \<and> xs ! r = t else r = SIZE_MAX" by blast
          have iff: "E f l \<longleftrightarrow> E f (m - 1)"
          proof
            assume "E f l"
            then obtain k where k: "f \<le> k" "k \<le> l" "xs ! k = t" unfolding E_def by blast
            have "k < m"
            proof (rule ccontr)
              assume "\<not> k < m"
              then have "m \<le> k" by simp
              then have "xs ! m \<le> xs ! k" using sorted_nth_mono[OF srt, of m k] k ll by simp
              then show False using k gt by simp
            qed
            then have "k \<le> m - 1" by simp
            with k(1) show "E f (m - 1)" using k(3) by (rule EI)
          next
            assume "E f (m - 1)"
            then obtain k where k: "f \<le> k" "k \<le> m - 1" "xs ! k = t" unfolding E_def by blast
            then have "k \<le> l" using mb by simp
            with k(1) show "E f l" using k(3) by (rule EI)
          qed
          have "if E f l then f \<le> r \<and> r \<le> l \<and> xs ! r = t else r = SIZE_MAX"
          proof (cases "E f l")
            case True
            then have "f \<le> r \<and> r \<le> m - 1 \<and> xs ! r = t" using r(2) iff by simp
            then have "f \<le> r \<and> r \<le> l \<and> xs ! r = t" using mb by auto
            then show ?thesis using True by simp
          next
            case False
            then show ?thesis using r(2) iff by simp
          qed
          then show ?thesis using res r(1) by simp
        qed
      qed
    qed
  qed
  then show ?case unfolding E_def .
qed

text \<open>
  In the sorted state, \<open>find(t)\<close> over the full range returns a position holding \<open>t\<close> if
  \<open>t\<close> occurs, and the not-found sentinel otherwise.
\<close>

lemma find_sorted_correct:
  fixes c :: "'a::linorder sorted_vector"
  assumes srt: "sorted (storage c)" and nc: "\<not> is_corrupted c"
    and len: "length (storage c) \<le> max_size"
  shows "\<exists>r. find_sv c t 0 SIZE_MAX = Some r \<and>
     (if t \<in> set (storage c) then r < length (storage c) \<and> storage c ! r = t
      else r = SIZE_MAX)"
proof (cases "storage c = []")
  case True
  then show ?thesis using value_searches_empty(1)[OF True] by simp
next
  case ne: False
  let ?xs = "storage c"
  let ?e = "length ?xs - 1"
  have e: "?e < length ?xs" using ne by simp
  have unf: "find_sv c t 0 SIZE_MAX = find_loop ?xs t 0 ?e"
    using ne nc by (cases ?xs) (auto simp: find_sv_def sz_sub_def)
  define E where "E \<longleftrightarrow> (\<exists>k. 0 \<le> k \<and> k \<le> ?e \<and> ?xs ! k = t)"
  have "\<exists>r. find_loop ?xs t 0 ?e = Some r \<and>
      (if E then 0 \<le> r \<and> r \<le> ?e \<and> ?xs ! r = t else r = SIZE_MAX)"
    using find_loop_sorted[OF len srt e, of t 0] unfolding E_def .
  then obtain r where r: "find_loop ?xs t 0 ?e = Some r"
    "if E then 0 \<le> r \<and> r \<le> ?e \<and> ?xs ! r = t else r = SIZE_MAX"
    by blast
  have iff: "E \<longleftrightarrow> t \<in> set ?xs"
  proof
    assume E
    then obtain k where "k \<le> ?e" "?xs ! k = t" unfolding E_def by blast
    then have "k < length ?xs" "?xs ! k = t" using e by auto
    then show "t \<in> set ?xs" using nth_mem by blast
  next
    assume "t \<in> set ?xs"
    then obtain k where "k < length ?xs" "?xs ! k = t" unfolding in_set_conv_nth by blast
    then have "0 \<le> k \<and> k \<le> ?e \<and> ?xs ! k = t" by simp
    then show E unfolding E_def by blast
  qed
  show ?thesis
  proof (cases "t \<in> set ?xs")
    case True
    then have "r \<le> ?e \<and> ?xs ! r = t" using r(2) iff by simp
    then have "r < length ?xs \<and> ?xs ! r = t" using e by simp
    then show ?thesis using unf r(1) True by simp
  next
    case False
    then have "r = SIZE_MAX" using r(2) iff by simp
    then show ?thesis using unf r(1) False by simp
  qed
qed


section \<open>Sortedness after pushes, replaces and merges\<close>

lemma autorepair_sorted_state: "\<not> is_corrupted c \<Longrightarrow> autorepair c = Some c"
  by (simp add: autorepair_def)

lemma push_sorted:
  fixes c :: "'a::linorder sorted_vector"
  assumes srt: "sorted (storage c)" and nc: "\<not> is_corrupted c"
    and len: "length (storage c) < max_size"
  shows "\<exists>c'. push c t = Some c' \<and> sorted (storage c') \<and> \<not> is_corrupted c'
            \<and> length (storage c') = length (storage c) + 1"
proof (cases "storage c = []")
  case True
  then have "push c t = Some (c\<lparr>storage := [t]\<rparr>)"
    using nc by (simp add: push_def autorepair_sorted_state)
  then show ?thesis using nc True by simp
next
  case ne: False
  let ?xs = "storage c"
  let ?n = "length ?xs"
  have len': "?n \<le> max_size" using len by simp
  have ar: "autorepair c = Some c" using nc by (rule autorepair_sorted_state)
  obtain r where r: "find_ceil c t 0 SIZE_MAX = Some r"
    "if ?xs ! (?n - 1) < t then r = SIZE_MAX
       else r < ?n \<and> t \<le> ?xs ! r
            \<and> (\<forall>i. r < i \<and> i < ?n \<longrightarrow> t < ?xs ! i)
            \<and> (\<forall>i. i < r \<longrightarrow> (if ?xs ! r = t then ?xs ! i \<le> t else ?xs ! i < t))"
    using find_ceil_sorted[OF srt nc len' ne, of t] by blast
  show ?thesis
  proof (cases "?xs ! (?n - 1) < t")
    case True
    then have rS: "r = SIZE_MAX" using r(2) by simp
    have res: "push c t = Some (c\<lparr>storage := ?xs @ [t]\<rparr>)"
      using ar nc ne r(1) rS by (simp add: push_def)
    have "x \<le> t" if xin: "x \<in> set ?xs" for x
    proof -
      from xin obtain k where k: "k < ?n" "?xs ! k = x" unfolding in_set_conv_nth by blast
      have "?xs ! k \<le> ?xs ! (?n - 1)" using sorted_nth_mono[OF srt, of k "?n - 1"] k(1) by simp
      then have "?xs ! k < t" using True by (rule le_less_trans)
      then show ?thesis using k by simp
    qed
    then have "sorted (?xs @ [t])" using srt by (simp add: sorted_append)
    then show ?thesis using res nc by simp
  next
    case False
    then have q: "r < ?n" "t \<le> ?xs ! r" "\<forall>i. r < i \<and> i < ?n \<longrightarrow> t < ?xs ! i"
      "\<forall>i. i < r \<longrightarrow> (if ?xs ! r = t then ?xs ! i \<le> t else ?xs ! i < t)"
      using r(2) by simp_all
    have nS: "r \<noteq> SIZE_MAX" using q(1) len' by (rule bounded_not_sentinel)
    have el: "elem ?xs r = Some (?xs ! r)" using q(1) len' by (simp add: elem_def)
    define p where "p = (if ?xs ! r = t then r + 1 else r)"
    have pl: "p \<le> ?n" using q(1) by (simp add: p_def)
    have res: "push c t = Some (c\<lparr>storage := take p ?xs @ t # drop p ?xs\<rparr>)"
      using ar nc ne r(1) nS el pl by (simp add: push_def insert_at_def p_def)
    have "sorted (take p ?xs @ t # drop p ?xs)"
    proof (rule sorted_insert_at[OF srt pl])
      fix j assume j: "j < p"
      show "?xs ! j \<le> t"
      proof (cases "j = r")
        case True
        then have "?xs ! r = t" using j by (simp add: p_def split: if_splits)
        then show ?thesis using True by simp
      next
        case False
        then have "j < r" using j by (simp add: p_def split: if_splits)
        then have "if ?xs ! r = t then ?xs ! j \<le> t else ?xs ! j < t" using q(4) by blast
        then show ?thesis by (simp split: if_splits)
      qed
    next
      fix j assume j: "p \<le> j" "j < ?n"
      show "t \<le> ?xs ! j"
      proof (cases "j = r")
        case True
        then show ?thesis using q(2) by simp
      next
        case False
        then have "r < j \<and> j < ?n" using j by (simp add: p_def split: if_splits)
        then have "t < ?xs ! j" using q(3) by blast
        then show ?thesis by simp
      qed
    qed
    then show ?thesis using res nc pl by simp
  qed
qed

lemma replace_sorted:
  fixes c :: "'a::linorder sorted_vector"
  assumes srt: "sorted (storage c)" and nc: "\<not> is_corrupted c"
    and len: "length (storage c) < max_size"
  shows "\<exists>c'. replace c t = Some c' \<and> sorted (storage c') \<and> \<not> is_corrupted c'
            \<and> length (storage c') \<le> length (storage c) + 1"
proof -
  let ?xs = "storage c"
  have len': "length ?xs \<le> max_size" using len by simp
  have ar: "autorepair c = Some c" using nc by (rule autorepair_sorted_state)
  obtain r where r: "find_sv c t 0 SIZE_MAX = Some r"
    "if t \<in> set ?xs then r < length ?xs \<and> ?xs ! r = t else r = SIZE_MAX"
    using find_sorted_correct[OF srt nc len', of t] by blast
  show ?thesis
  proof (cases "t \<in> set ?xs")
    case True
    then have q: "r < length ?xs" "?xs ! r = t" using r(2) by simp_all
    have nS: "r \<noteq> SIZE_MAX" using q(1) len' by (rule bounded_not_sentinel)
    have "assign_at ?xs r t = Some ?xs"
      using q len' by (simp add: assign_at_def list_update_same_conv)
    then have "replace c t = Some (c\<lparr>storage := ?xs\<rparr>)"
      using ar r(1) nS by (simp add: replace_def)
    then show ?thesis using srt nc by simp
  next
    case False
    then have "r = SIZE_MAX" using r(2) by simp
    then have "replace c t = push c t" using ar r(1) by (simp add: replace_def)
    then show ?thesis using push_sorted[OF srt nc len, of t] by auto
  qed
qed

lemma merge_sorted:
  fixes c :: "'a::linorder sorted_vector"
  shows "\<exists>c'. merge_sv c v = Some c' \<and> sorted (storage c') \<and> \<not> is_corrupted c'
            \<and> length (storage c') = length (storage c) + length v"
  by (simp add: merge_sv_def repair_def sort_sv_def)

lemma do_calls_sorted:
  fixes c :: "'a::linorder sorted_vector"
  shows "sorted (storage c) \<Longrightarrow> \<not> is_corrupted c \<Longrightarrow>
     length (storage c) + sum_list (map call_size calls) \<le> max_size \<Longrightarrow>
     \<exists>c'. do_calls c calls = Some c' \<and> sorted (storage c') \<and> \<not> is_corrupted c'"
proof (induction calls arbitrary: c)
  case Nil
  then show ?case by simp
next
  case (Cons x calls)
  have step: "\<exists>c1. do_call c x = Some c1 \<and> sorted (storage c1) \<and> \<not> is_corrupted c1
            \<and> length (storage c1) \<le> length (storage c) + call_size x"
  proof (cases x)
    case (Push t)
    have "length (storage c) < max_size" using Cons.prems(3) Push by simp
    from push_sorted[OF Cons.prems(1,2) this, of t] show ?thesis using Push by auto
  next
    case (Replace t)
    have "length (storage c) < max_size" using Cons.prems(3) Replace by simp
    from replace_sorted[OF Cons.prems(1,2) this, of t] show ?thesis using Replace by auto
  next
    case (Merge v)
    from merge_sorted[of c v] show ?thesis using Merge by auto
  qed
  then obtain c1 where c1: "do_call c x = Some c1" "sorted (storage c1)" "\<not> is_corrupted c1"
    "length (storage c1) \<le> length (storage c) + call_size x" by blast
  have "length (storage c1) + sum_list (map call_size calls) \<le> max_size"
    using c1(4) Cons.prems(3) by simp
  from Cons.IH[OF c1(2,3) this] show ?case using c1(1) by simp
qed

text \<open>
  Claim C5: starting from a default-constructed container or from one constructed from a
  vector, any sequence of \<open>push\<close>, \<open>replace\<close> and \<open>merge\<close> calls returns (as long as the
  elements fit into a vector), the final \<open>repair()\<close> returns, and the storage is then
  non-decreasing: every adjacent pair satisfies \<open>storage[i] \<le> storage[i+1]\<close>.
\<close>

theorem sorted_after_calls_and_repair:
  fixes c0 :: "'a::linorder sorted_vector"
  assumes fresh: "c0 = new_sv \<or> c0 = from_vector v0"
    and room: "length (storage c0) + sum_list (map call_size calls) \<le> max_size"
  shows "\<exists>c1 c2. do_calls c0 calls = Some c1 \<and> repair c1 = Some c2 \<and> sorted (storage c2)
           \<and> (\<forall>i. Suc i < length (storage c2) \<longrightarrow> storage c2 ! i \<le> storage c2 ! Suc i)"
proof -
  have init: "sorted (storage c0)" "\<not> is_corrupted c0"
    using fresh by (auto simp: new_sv_def from_vector_def sort_sv_def)
  obtain c1 where c1: "do_calls c0 calls = Some c1" "sorted (storage c1)" "\<not> is_corrupted c1"
    using do_calls_sorted[OF init room] by blast
  have rep: "repair c1 = Some c1" using c1(3) by (rule repair_sorted_state)
  have "storage c1 ! i \<le> storage c1 ! Suc i" if "Suc i < length (storage c1)" for i
    using sorted_nth_mono[OF c1(2), of i "Suc i"] that by simp
  then show ?thesis using c1 rep by blast
qed

theorem sorted_after_calls_and_repair_witness:
  "((new_sv :: int sorted_vector) = new_sv \<or> (new_sv :: int sorted_vector) = from_vector [])
   \<and> length (storage (new_sv :: int sorted_vector))
        + sum_list (map call_size [Push 3, Merge [10, 2, 6], Replace 2, Push (6 :: int)])
       \<le> max_size
   \<and> (\<exists>c1 c2. do_calls new_sv [Push 3, Merge [10, 2, 6], Replace 2, Push (6 :: int)] = Some c1
         \<and> repair c1 = Some c2 \<and> sorted (storage c2))"
proof -
  have h1: "(new_sv :: int sorted_vector) = new_sv \<or> (new_sv :: int sorted_vector) = from_vector []"
    by simp
  have h2: "length (storage (new_sv :: int sorted_vector))
        + sum_list (map call_size [Push 3, Merge [10, 2, 6], Replace 2, Push (6 :: int)])
       \<le> max_size"
    by (simp add: new_sv_def max_size_def)
  from sorted_after_calls_and_repair[OF h1 h2]
  have "\<exists>c1 c2. do_calls new_sv [Push 3, Merge [10, 2, 6], Replace 2, Push (6 :: int)] = Some c1
         \<and> repair c1 = Some c2 \<and> sorted (storage c2)"
    by blast
  then show ?thesis using h1 h2 by blast
qed

section \<open>The scenarios of the specification\<close>

lemma scenario_repair_in_place:
  "map_option storage (repair \<lparr>storage = [1, 3, 4, 7, 9 :: int], last_modified = 2,
      is_corrupted = True, flag_suspend_autorepair = False\<rparr>) = Some [1, 3, 4, 7, 9]"
  by (simp add: repair_def repair_single_def lt_at_def sz_defs)

lemma scenario_repair_shift_back:
  "map_option storage (repair \<lparr>storage = [1, 3, 20, 7, 9 :: int], last_modified = 2,
      is_corrupted = True, flag_suspend_autorepair = False\<rparr>) = Some [1, 3, 7, 9, 20]"
  by (simp add: repair_def repair_single_def lt_at_def find_floor_def single_shift_left_def
      erase_at_def insert_at_def assign_at_def sz_defs)

lemma scenario_repair_shift_front:
  "map_option storage (repair \<lparr>storage = [1, 3, 0, 7, 9 :: int], last_modified = 2,
      is_corrupted = True, flag_suspend_autorepair = False\<rparr>) = Some [0, 1, 3, 7, 9]"
  by (simp add: repair_def repair_single_def lt_at_def find_ceil_def single_shift_right_def
      erase_at_def insert_at_def assign_at_def sz_defs)

lemma scenario_push:
  "map_option storage (push \<lparr>storage = [1, 3, 5, 7, 9 :: int], last_modified = SIZE_MAX,
      is_corrupted = False, flag_suspend_autorepair = False\<rparr> 6) = Some [1, 3, 5, 6, 7, 9]"
  by (simp add: push_def autorepair_def find_ceil_def find_ceil_loop.simps
      find_ceil_walk.simps insert_at_def sz_defs)

lemma scenario_merge:
  "map_option storage (merge_sv \<lparr>storage = [1, 3, 5, 7, 9 :: int], last_modified = SIZE_MAX,
      is_corrupted = False, flag_suspend_autorepair = False\<rparr> [10, 2, 6])
   = Some [1, 2, 3, 5, 6, 7, 9, 10]"
  by (simp add: merge_sv_def repair_def sort_sv_def)

end
